theory Spec2Isabelle
  imports Main "HOL-Library.Word"
begin

unbundle bit_operations_syntax

section \<open>Machine types\<close>

text \<open>\<^verbatim>\<open>unsigned char\<close>, \<^verbatim>\<open>uint32\<close> and \<^verbatim>\<open>uint64\<close> of the source: arithmetic wraps around.\<close>

type_synonym byte = "8 word"
type_synonym uint32 = "32 word"
type_synonym uint64 = "64 word"

section \<open>SHA-256 (namespace SHA256Impl)\<close>

text \<open>The round constants \<^verbatim>\<open>K[64]\<close>, in the order of the source.\<close>

definition K :: "uint32 list" where
  "K = [
    0x428A2F98,0x71374491,0xB5C0FBCF,0xE9B5DBA5,0x3956C25B,0x59F111F1,0x923F82A4,0xAB1C5ED5,
    0xD807AA98,0x12835B01,0x243185BE,0x550C7DC3,0x72BE5D74,0x80DEB1FE,0x9BDC06A7,0xC19BF174,
    0xE49B69C1,0xEFBE4786,0x0FC19DC6,0x240CA1CC,0x2DE92C6F,0x4A7484AA,0x5CB0A9DC,0x76F988DA,
    0x983E5152,0xA831C66D,0xB00327C8,0xBF597FC7,0xC6E00BF3,0xD5A79147,0x06CA6351,0x14292967,
    0x27B70A85,0x2E1B2138,0x4D2C6DFC,0x53380D13,0x650A7354,0x766A0ABB,0x81C2C92E,0x92722C85,
    0xA2BFE8A1,0xA81A664B,0xC24B8B70,0xC76C51A3,0xD192E819,0xD6990624,0xF40E3585,0x106AA070,
    0x19A4C116,0x1E376C08,0x2748774C,0x34B0BCB5,0x391C0CB3,0x4ED8AA4A,0x5B9CCA4F,0x682E6FF3,
    0x748F82EE,0x78A5636F,0x84C87814,0x8CC70208,0x90BEFFFA,0xA4506CEB,0xBEF9A3F7,0xC67178F2]"

definition rotr :: "uint32 \<Rightarrow> nat \<Rightarrow> uint32" where
  "rotr x n = drop_bit n x OR push_bit (32 - n) x"

definition ch :: "uint32 \<Rightarrow> uint32 \<Rightarrow> uint32 \<Rightarrow> uint32" where
  "ch x y z = (x AND y) XOR (NOT x AND z)"

definition maj :: "uint32 \<Rightarrow> uint32 \<Rightarrow> uint32 \<Rightarrow> uint32" where
  "maj x y z = (x AND y) XOR (x AND z) XOR (y AND z)"

definition sig0 :: "uint32 \<Rightarrow> uint32" where
  "sig0 x = rotr x 2 XOR rotr x 13 XOR rotr x 22"

definition sig1 :: "uint32 \<Rightarrow> uint32" where
  "sig1 x = rotr x 6 XOR rotr x 11 XOR rotr x 25"

definition gam0 :: "uint32 \<Rightarrow> uint32" where
  "gam0 x = rotr x 7 XOR rotr x 18 XOR drop_bit 3 x"

definition gam1 :: "uint32 \<Rightarrow> uint32" where
  "gam1 x = rotr x 17 XOR rotr x 19 XOR drop_bit 10 x"

text \<open>The loop \<^verbatim>\<open>while ((msg.size() % 64) != 56) msg.push_back(0x00)\<close>. It ends because
  the distance of the length to the next value that is 56 modulo 64 shrinks.\<close>

definition pad_dist :: "nat \<Rightarrow> nat" where
  "pad_dist n = (if n mod 64 \<le> 56 then 56 - n mod 64 else 120 - n mod 64)"

lemma pad_dist_Suc:
  assumes "n mod 64 \<noteq> (56::nat)"
  shows "pad_dist (Suc n) < pad_dist n"
proof -
  define r where "r = n mod 64"
  have r: "r < 64" "r \<noteq> 56" using assms by (simp_all add: r_def)
  have s: "Suc n mod 64 = (if r = 63 then 0 else Suc r)"
    by (simp add: mod_Suc r_def)
  show ?thesis
    unfolding pad_dist_def s r_def[symmetric] using r by (auto split: if_splits)
qed

function pad_zeros :: "byte list \<Rightarrow> byte list" where
  "pad_zeros msg = (if length msg mod 64 \<noteq> 56 then pad_zeros (msg @ [0x00]) else msg)"
  by pat_completeness auto
termination
proof (relation "measure (\<lambda>msg. pad_dist (length msg))")
  show "wf (measure (\<lambda>msg::byte list. pad_dist (length msg)))" by simp
next
  fix msg :: "byte list"
  assume "length msg mod 64 \<noteq> 56"
  then show "(msg @ [0], msg) \<in> measure (\<lambda>msg. pad_dist (length msg))"
    using pad_dist_Suc[of "length msg"] by simp
qed

declare pad_zeros.simps [simp del]

text \<open>The padded message: the data, \<^verbatim>\<open>0x80\<close>, zeros, then the bit length
  (\<^verbatim>\<open>(uint64)len * 8\<close>, wrapping at 64 bits) as eight bytes, most significant first.\<close>

definition sha_padding :: "byte list \<Rightarrow> byte list" where
  "sha_padding data =
     (let bitlen = (of_nat (length data) :: uint64) * 8;
          msg = pad_zeros (data @ [0x80])
      in msg @ map (\<lambda>i. ucast (drop_bit (i * 8) bitlen)) [7, 6, 5, 4, 3, 2, 1, 0])"

definition load_word :: "byte list \<Rightarrow> nat \<Rightarrow> nat \<Rightarrow> uint32" where
  "load_word msg off i =
     push_bit 24 (ucast (msg ! (off + i * 4))) OR push_bit 16 (ucast (msg ! (off + i * 4 + 1)))
     OR push_bit 8 (ucast (msg ! (off + i * 4 + 2))) OR ucast (msg ! (off + i * 4 + 3))"

text \<open>The message schedule \<^verbatim>\<open>w[0..64)\<close>; entry \<open>i\<close> is written once, after the entries
  below it, so the array is built by appending.\<close>

definition schedule_step :: "nat \<Rightarrow> uint32 list \<Rightarrow> uint32 list" where
  "schedule_step i w = w @ [gam1 (w ! (i - 2)) + w ! (i - 7) + gam0 (w ! (i - 15)) + w ! (i - 16)]"

definition schedule :: "byte list \<Rightarrow> nat \<Rightarrow> uint32 list" where
  "schedule msg off = fold schedule_step [16..<64] (map (load_word msg off) [0..<16])"

type_synonym vars =
  "uint32 \<times> uint32 \<times> uint32 \<times> uint32 \<times> uint32 \<times> uint32 \<times> uint32 \<times> uint32"

fun round_step :: "uint32 list \<Rightarrow> nat \<Rightarrow> vars \<Rightarrow> vars" where
  "round_step w i (a, b, c, d, e, f, g, hh) =
     (let t1 = hh + sig1 e + ch e f g + K ! i + w ! i;
          t2 = sig0 a + maj a b c
      in (t1 + t2, a, b, c, d + t1, e, f, g))"

fun add_vars :: "uint32 list \<Rightarrow> vars \<Rightarrow> uint32 list" where
  "add_vars h (a, b, c, d, e, f, g, hh) =
     [h ! 0 + a, h ! 1 + b, h ! 2 + c, h ! 3 + d, h ! 4 + e, h ! 5 + f, h ! 6 + g, h ! 7 + hh]"

definition compress :: "byte list \<Rightarrow> nat \<Rightarrow> uint32 list \<Rightarrow> uint32 list" where
  "compress msg off h =
     add_vars h (fold (round_step (schedule msg off)) [0..<64]
                   (h ! 0, h ! 1, h ! 2, h ! 3, h ! 4, h ! 5, h ! 6, h ! 7))"

function process_blocks :: "byte list \<Rightarrow> nat \<Rightarrow> uint32 list \<Rightarrow> uint32 list" where
  "process_blocks msg off h =
     (if off < length msg then process_blocks msg (off + 64) (compress msg off h) else h)"
  by pat_completeness auto
termination
  by (relation "measure (\<lambda>(msg, off, h). length msg - off)") auto

declare process_blocks.simps [simp del]

definition h_init :: "uint32 list" where
  "h_init = [0x6a09e667,0xbb67ae85,0x3c6ef372,0xa54ff53a,0x510e527f,0x9b05688c,0x1f83d9ab,0x5be0cd19]"

definition word_bytes :: "uint32 \<Rightarrow> byte list" where
  "word_bytes x = [ucast (drop_bit 24 x AND 0xff), ucast (drop_bit 16 x AND 0xff),
                   ucast (drop_bit 8 x AND 0xff), ucast (x AND 0xff)]"

definition hash :: "byte list \<Rightarrow> byte list" where
  "hash data = concat (map word_bytes (process_blocks (sha_padding data) 0 h_init))"

section \<open>AES-256 (namespace AES256Impl)\<close>

definition sbox :: "byte list" where
  "sbox = [
    0x63,0x7c,0x77,0x7b,0xf2,0x6b,0x6f,0xc5,0x30,0x01,0x67,0x2b,0xfe,0xd7,0xab,0x76,
    0xca,0x82,0xc9,0x7d,0xfa,0x59,0x47,0xf0,0xad,0xd4,0xa2,0xaf,0x9c,0xa4,0x72,0xc0,
    0xb7,0xfd,0x93,0x26,0x36,0x3f,0xf7,0xcc,0x34,0xa5,0xe5,0xf1,0x71,0xd8,0x31,0x15,
    0x04,0xc7,0x23,0xc3,0x18,0x96,0x05,0x9a,0x07,0x12,0x80,0xe2,0xeb,0x27,0xb2,0x75,
    0x09,0x83,0x2c,0x1a,0x1b,0x6e,0x5a,0xa0,0x52,0x3b,0xd6,0xb3,0x29,0xe3,0x2f,0x84,
    0x53,0xd1,0x00,0xed,0x20,0xfc,0xb1,0x5b,0x6a,0xcb,0xbe,0x39,0x4a,0x4c,0x58,0xcf,
    0xd0,0xef,0xaa,0xfb,0x43,0x4d,0x33,0x85,0x45,0xf9,0x02,0x7f,0x50,0x3c,0x9f,0xa8,
    0x51,0xa3,0x40,0x8f,0x92,0x9d,0x38,0xf5,0xbc,0xb6,0xda,0x21,0x10,0xff,0xf3,0xd2,
    0xcd,0x0c,0x13,0xec,0x5f,0x97,0x44,0x17,0xc4,0xa7,0x7e,0x3d,0x64,0x5d,0x19,0x73,
    0x60,0x81,0x4f,0xdc,0x22,0x2a,0x90,0x88,0x46,0xee,0xb8,0x14,0xde,0x5e,0x0b,0xdb,
    0xe0,0x32,0x3a,0x0a,0x49,0x06,0x24,0x5c,0xc2,0xd3,0xac,0x62,0x91,0x95,0xe4,0x79,
    0xe7,0xc8,0x37,0x6d,0x8d,0xd5,0x4e,0xa9,0x6c,0x56,0xf4,0xea,0x65,0x7a,0xae,0x08,
    0xba,0x78,0x25,0x2e,0x1c,0xa6,0xb4,0xc6,0xe8,0xdd,0x74,0x1f,0x4b,0xbd,0x8b,0x8a,
    0x70,0x3e,0xb5,0x66,0x48,0x03,0xf6,0x0e,0x61,0x35,0x57,0xb9,0x86,0xc1,0x1d,0x9e,
    0xe1,0xf8,0x98,0x11,0x69,0xd9,0x8e,0x94,0x9b,0x1e,0x87,0xe9,0xce,0x55,0x28,0xdf,
    0x8c,0xa1,0x89,0x0d,0xbf,0xe6,0x42,0x68,0x41,0x99,0x2d,0x0f,0xb0,0x54,0xbb,0x16]"

definition rsbox :: "byte list" where
  "rsbox = [
    0x52,0x09,0x6a,0xd5,0x30,0x36,0xa5,0x38,0xbf,0x40,0xa3,0x9e,0x81,0xf3,0xd7,0xfb,
    0x7c,0xe3,0x39,0x82,0x9b,0x2f,0xff,0x87,0x34,0x8e,0x43,0x44,0xc4,0xde,0xe9,0xcb,
    0x54,0x7b,0x94,0x32,0xa6,0xc2,0x23,0x3d,0xee,0x4c,0x95,0x0b,0x42,0xfa,0xc3,0x4e,
    0x08,0x2e,0xa1,0x66,0x28,0xd9,0x24,0xb2,0x76,0x5b,0xa2,0x49,0x6d,0x8b,0xd1,0x25,
    0x72,0xf8,0xf6,0x64,0x86,0x68,0x98,0x16,0xd4,0xa4,0x5c,0xcc,0x5d,0x65,0xb6,0x92,
    0x6c,0x70,0x48,0x50,0xfd,0xed,0xb9,0xda,0x5e,0x15,0x46,0x57,0xa7,0x8d,0x9d,0x84,
    0x90,0xd8,0xab,0x00,0x8c,0xbc,0xd3,0x0a,0xf7,0xe4,0x58,0x05,0xb8,0xb3,0x45,0x06,
    0xd0,0x2c,0x1e,0x8f,0xca,0x3f,0x0f,0x02,0xc1,0xaf,0xbd,0x03,0x01,0x13,0x8a,0x6b,
    0x3a,0x91,0x11,0x41,0x4f,0x67,0xdc,0xea,0x97,0xf2,0xcf,0xce,0xf0,0xb4,0xe6,0x73,
    0x96,0xac,0x74,0x22,0xe7,0xad,0x35,0x85,0xe2,0xf9,0x37,0xe8,0x1c,0x75,0xdf,0x6e,
    0x47,0xf1,0x1a,0x71,0x1d,0x29,0xc5,0x89,0x6f,0xb7,0x62,0x0e,0xaa,0x18,0xbe,0x1b,
    0xfc,0x56,0x3e,0x4b,0xc6,0xd2,0x79,0x20,0x9a,0xdb,0xc0,0xfe,0x78,0xcd,0x5a,0xf4,
    0x1f,0xdd,0xa8,0x33,0x88,0x07,0xc7,0x31,0xb1,0x12,0x10,0x59,0x27,0x80,0xec,0x5f,
    0x60,0x51,0x7f,0xa9,0x19,0xb5,0x4a,0x0d,0x2d,0xe5,0x7a,0x9f,0x93,0xc9,0x9c,0xef,
    0xa0,0xe0,0x3b,0x4d,0xae,0x2a,0xf5,0xb0,0xc8,0xeb,0xbb,0x3c,0x83,0x53,0x99,0x61,
    0x17,0x2b,0x04,0x7e,0xba,0x77,0xd6,0x26,0xe1,0x69,0x14,0x63,0x55,0x21,0x0c,0x7d]"

definition rcon :: "byte list" where
  "rcon = [0x00,0x01,0x02,0x04,0x08,0x10,0x20,0x40,0x80,0x1b,0x36]"

text \<open>\<^verbatim>\<open>(x<<1) ^ ((x>>7) & 1 ? 0x1b : 0)\<close>, truncated to a byte on return.\<close>

definition xtime :: "byte \<Rightarrow> byte" where
  "xtime x = push_bit 1 x XOR (if drop_bit 7 x AND 1 \<noteq> 0 then 0x1b else 0)"

text \<open>The eight iterations of the loop of \<^verbatim>\<open>gmul\<close>, on the triple \<open>(a, b, p)\<close>.\<close>

fun gmul_loop :: "nat \<Rightarrow> byte \<Rightarrow> byte \<Rightarrow> byte \<Rightarrow> byte" where
  "gmul_loop 0 a b p = p"
| "gmul_loop (Suc n) a b p =
     gmul_loop n (xtime a) (drop_bit 1 b) (if b AND 1 \<noteq> 0 then p XOR a else p)"

definition gmul :: "byte \<Rightarrow> byte \<Rightarrow> byte" where
  "gmul a b = gmul_loop 8 a b 0"

text \<open>\<^verbatim>\<open>struct Context\<close>: the 240 bytes of round keys and the number of rounds.\<close>

record Context =
  roundKey :: "byte list"
  Nr :: nat

type_synonym state = "byte list list"

definition idx4 :: "nat list" where
  "idx4 = [0, 1, 2, 3]"

text \<open>One iteration of the loop of \<^verbatim>\<open>keyExpansion\<close>, for word index \<open>i\<close>.\<close>

definition expand_word :: "nat \<Rightarrow> nat \<Rightarrow> byte list \<Rightarrow> byte list" where
  "expand_word Nk i rk =
     (let temp = map (\<lambda>j. rk ! ((i - 1) * 4 + j)) idx4;
          temp' = (if i mod Nk = 0 then
                     [sbox ! unat (temp ! 1) XOR rcon ! (i div Nk), sbox ! unat (temp ! 2),
                      sbox ! unat (temp ! 3), sbox ! unat (temp ! 0)]
                   else if i mod Nk = 4 then map (\<lambda>t. sbox ! unat t) temp
                   else temp)
      in fold (\<lambda>j r. r[i * 4 + j := r ! ((i - Nk) * 4 + j) XOR temp' ! j]) idx4 rk)"

definition keyExpansion :: "Context \<Rightarrow> byte list \<Rightarrow> Context" where
  "keyExpansion ctx key =
     (let nr = 14; Nk = 8;
          rk = take 32 key @ drop 32 (roundKey ctx)
      in ctx\<lparr>roundKey := fold (expand_word Nk) [Nk..<4 * (nr + 1)] rk, Nr := nr\<rparr>)"

definition addRoundKey :: "Context \<Rightarrow> state \<Rightarrow> nat \<Rightarrow> state" where
  "addRoundKey ctx st round =
     map (\<lambda>j. map (\<lambda>i. st ! j ! i XOR roundKey ctx ! (round * 16 + i * 4 + j)) idx4) idx4"

definition subBytes :: "state \<Rightarrow> state" where
  "subBytes st = map (\<lambda>i. map (\<lambda>j. sbox ! unat (st ! i ! j)) idx4) idx4"

definition invSubBytes :: "state \<Rightarrow> state" where
  "invSubBytes st = map (\<lambda>i. map (\<lambda>j. rsbox ! unat (st ! i ! j)) idx4) idx4"

text \<open>The rotations of rows 1, 2 and 3, each written in the source as a chain of
  assignments through a temporary; the state after the chain is given directly.\<close>

definition shiftRows :: "state \<Rightarrow> state" where
  "shiftRows st =
     [[st ! 0 ! 0, st ! 0 ! 1, st ! 0 ! 2, st ! 0 ! 3],
      [st ! 1 ! 1, st ! 1 ! 2, st ! 1 ! 3, st ! 1 ! 0],
      [st ! 2 ! 2, st ! 2 ! 3, st ! 2 ! 0, st ! 2 ! 1],
      [st ! 3 ! 3, st ! 3 ! 0, st ! 3 ! 1, st ! 3 ! 2]]"

definition invShiftRows :: "state \<Rightarrow> state" where
  "invShiftRows st =
     [[st ! 0 ! 0, st ! 0 ! 1, st ! 0 ! 2, st ! 0 ! 3],
      [st ! 1 ! 3, st ! 1 ! 0, st ! 1 ! 1, st ! 1 ! 2],
      [st ! 2 ! 2, st ! 2 ! 3, st ! 2 ! 0, st ! 2 ! 1],
      [st ! 3 ! 1, st ! 3 ! 2, st ! 3 ! 3, st ! 3 ! 0]]"

definition mixColumns :: "state \<Rightarrow> state" where
  "mixColumns st =
     [map (\<lambda>i. gmul (st ! 0 ! i) 2 XOR gmul (st ! 1 ! i) 3 XOR st ! 2 ! i XOR st ! 3 ! i) idx4,
      map (\<lambda>i. st ! 0 ! i XOR gmul (st ! 1 ! i) 2 XOR gmul (st ! 2 ! i) 3 XOR st ! 3 ! i) idx4,
      map (\<lambda>i. st ! 0 ! i XOR st ! 1 ! i XOR gmul (st ! 2 ! i) 2 XOR gmul (st ! 3 ! i) 3) idx4,
      map (\<lambda>i. gmul (st ! 0 ! i) 3 XOR st ! 1 ! i XOR st ! 2 ! i XOR gmul (st ! 3 ! i) 2) idx4]"

definition invMixColumns :: "state \<Rightarrow> state" where
  "invMixColumns st =
     [map (\<lambda>i. gmul (st ! 0 ! i) 14 XOR gmul (st ! 1 ! i) 11 XOR gmul (st ! 2 ! i) 13
                XOR gmul (st ! 3 ! i) 9) idx4,
      map (\<lambda>i. gmul (st ! 0 ! i) 9 XOR gmul (st ! 1 ! i) 14 XOR gmul (st ! 2 ! i) 11
                XOR gmul (st ! 3 ! i) 13) idx4,
      map (\<lambda>i. gmul (st ! 0 ! i) 13 XOR gmul (st ! 1 ! i) 9 XOR gmul (st ! 2 ! i) 14
                XOR gmul (st ! 3 ! i) 11) idx4,
      map (\<lambda>i. gmul (st ! 0 ! i) 11 XOR gmul (st ! 1 ! i) 13 XOR gmul (st ! 2 ! i) 9
                XOR gmul (st ! 3 ! i) 14) idx4]"

text \<open>\<^verbatim>\<open>state[j][i] = block[i*4+j]\<close> and back.\<close>

definition load_state :: "byte list \<Rightarrow> state" where
  "load_state block = map (\<lambda>j. map (\<lambda>i. block ! (i * 4 + j)) idx4) idx4"

definition store_state :: "state \<Rightarrow> byte list" where
  "store_state st = concat (map (\<lambda>i. map (\<lambda>j. st ! j ! i) idx4) idx4)"

definition enc_round :: "Context \<Rightarrow> nat \<Rightarrow> state \<Rightarrow> state" where
  "enc_round ctx round st = addRoundKey ctx (mixColumns (shiftRows (subBytes st))) round"

definition dec_round :: "Context \<Rightarrow> nat \<Rightarrow> state \<Rightarrow> state" where
  "dec_round ctx round st = invMixColumns (addRoundKey ctx (invSubBytes (invShiftRows st)) round)"

definition encryptBlock :: "Context \<Rightarrow> byte list \<Rightarrow> byte list" where
  "encryptBlock ctx block =
     (let st = addRoundKey ctx (load_state block) 0;
          st = fold (enc_round ctx) [1..<Nr ctx] st;
          st = addRoundKey ctx (shiftRows (subBytes st)) (Nr ctx)
      in store_state st)"

definition decryptBlock :: "Context \<Rightarrow> byte list \<Rightarrow> byte list" where
  "decryptBlock ctx block =
     (let st = addRoundKey ctx (load_state block) (Nr ctx);
          st = fold (dec_round ctx) (rev [1..<Nr ctx]) st;
          st = addRoundKey ctx (invSubBytes (invShiftRows st)) 0
      in store_state st)"

section \<open>Utility functions\<close>

definition pkcs7Pad :: "byte list \<Rightarrow> byte list" where
  "pkcs7Pad data =
     (let padLen = 16 - length data mod 16 in data @ replicate padLen (of_nat padLen))"

text \<open>\<^verbatim>\<open>pkcs7Unpad\<close> returns \<^verbatim>\<open>false\<close> (here \<open>None\<close>) or truncates its argument in place
  and returns \<^verbatim>\<open>true\<close> (here \<open>Some\<close> of the truncated data).\<close>

definition pkcs7Unpad :: "byte list \<Rightarrow> byte list option" where
  "pkcs7Unpad data =
     (if data = [] \<or> length data mod 16 \<noteq> 0 then None
      else let pad = last data in
        if pad < 1 \<or> pad > 16 then None
        else if list_ex (\<lambda>i. data ! i \<noteq> pad) [length data - unat pad..<length data] then None
        else Some (take (length data - unat pad) data))"

text \<open>\<^verbatim>\<open>ss << hex << setfill('0') << setw(2) << (int)data[i]\<close>: the digits of the value in
  base 16, lowercase, then filled on the left to the width.\<close>

definition hex_digit :: "nat \<Rightarrow> char" where
  "hex_digit d = ''0123456789abcdef'' ! d"

fun hex_digits :: "nat \<Rightarrow> string" where
  "hex_digits n = (if n < 16 then [hex_digit n] else hex_digits (n div 16) @ [hex_digit (n mod 16)])"

declare hex_digits.simps [simp del]

definition setw_fill :: "nat \<Rightarrow> char \<Rightarrow> string \<Rightarrow> string" where
  "setw_fill w c s = replicate (w - length s) c @ s"

definition bytesToHex :: "byte list \<Rightarrow> string" where
  "bytesToHex data = concat (map (\<lambda>b. setw_fill 2 (CHR ''0'') (hex_digits (unat b))) data)"

text \<open>\<^verbatim>\<open>SHA256Impl::toHex\<close> writes a digest with the same stream settings.\<close>

definition toHex :: "byte list \<Rightarrow> string" where
  "toHex h = concat (map (\<lambda>b. setw_fill 2 (CHR ''0'') (hex_digits (unat b))) h)"

text \<open>The library function \<^verbatim>\<open>strtol(s, nullptr, 16)\<close> on a C string: the string ends at the
  first NUL, leading white space is skipped, then an optional sign, an optional \<^verbatim>\<open>0x\<close> prefix
  (only when a hexadecimal digit follows it) and the longest run of hexadecimal digits; no digit
  gives 0. The arguments here have at most two characters, so the clamping to the range of
  \<^verbatim>\<open>long\<close> never applies.\<close>

definition is_space :: "char \<Rightarrow> bool" where
  "is_space c = (c \<in> set [CHR '' '', CHR 0x09, CHR 0x0A, CHR 0x0B, CHR 0x0C, CHR 0x0D])"

definition hex_val :: "char \<Rightarrow> nat option" where
  "hex_val c =
     (let n = (of_char c :: nat) in
      if 48 \<le> n \<and> n \<le> 57 then Some (n - 48)
      else if 97 \<le> n \<and> n \<le> 102 then Some (n - 87)
      else if 65 \<le> n \<and> n \<le> 70 then Some (n - 55)
      else None)"

fun strtol_digits :: "string \<Rightarrow> int \<Rightarrow> int" where
  "strtol_digits [] acc = acc"
| "strtol_digits (c # cs) acc =
     (case hex_val c of None \<Rightarrow> acc | Some d \<Rightarrow> strtol_digits cs (acc * 16 + int d))"

fun strip_sign :: "string \<Rightarrow> bool \<times> string" where
  "strip_sign (c # cs) =
     (if c = CHR ''-'' then (True, cs) else if c = CHR ''+'' then (False, cs) else (False, c # cs))"
| "strip_sign [] = (False, [])"

fun strip_0x :: "string \<Rightarrow> string" where
  "strip_0x (z # x # d # cs) =
     (if z = CHR ''0'' \<and> (x = CHR ''x'' \<or> x = CHR ''X'') \<and> hex_val d \<noteq> None then d # cs
      else z # x # d # cs)"
| "strip_0x cs = cs"

definition strtol16 :: "string \<Rightarrow> int" where
  "strtol16 s =
     (let s1 = takeWhile (\<lambda>c. c \<noteq> CHR 0x00) s;
          s2 = dropWhile is_space s1;
          (neg, s3) = strip_sign s2;
          v = strtol_digits (strip_0x s3) 0
      in if neg then - v else v)"

text \<open>The loop \<^verbatim>\<open>for (i = 0; i + 1 < hex.size(); i += 2)\<close> over \<^verbatim>\<open>hex.substr(i, 2)\<close>; the result
  of \<^verbatim>\<open>strtol\<close> is cast to \<^verbatim>\<open>unsigned char\<close>.\<close>

fun hexToBytes :: "string \<Rightarrow> byte list" where
  "hexToBytes (a # b # rest) = of_int (strtol16 [a, b]) # hexToBytes rest"
| "hexToBytes rest = []"

section \<open>The cipher (class AESCipher)\<close>

record AESCipher =
  key :: "byte list"
  ctx :: Context

definition string_bytes :: "string \<Rightarrow> byte list" where
  "string_bytes s = map (\<lambda>c. of_nat (of_char c)) s"

definition bytes_string :: "byte list \<Rightarrow> string" where
  "bytes_string d = map (\<lambda>b. char_of (unat b)) d"

definition setKey :: "AESCipher \<Rightarrow> string \<Rightarrow> AESCipher" where
  "setKey c password =
     (let h = hash (string_bytes password); k = take 32 h
      in c\<lparr>key := k, ctx := keyExpansion (ctx c) k\<rparr>)"

text \<open>The three ways \<^verbatim>\<open>encrypt\<close> and \<^verbatim>\<open>decrypt\<close> give up. Each of them is a
  \<^verbatim>\<open>return {}\<close> in the source.\<close>

datatype error = RandomGenerationFailure | InvalidCiphertextLength | InvalidPadding

definition sentinel :: "error + byte list \<Rightarrow> byte list" where
  "sentinel r = (case r of Inl e \<Rightarrow> [] | Inr v \<Rightarrow> v)"

function encrypt_loop :: "Context \<Rightarrow> byte list \<Rightarrow> nat \<Rightarrow> byte list \<Rightarrow> byte list \<Rightarrow> byte list" where
  "encrypt_loop cx padded i prev result =
     (if i < length padded then
        let block = encryptBlock cx (map (\<lambda>j. padded ! (i + j) XOR prev ! j) [0..<16])
        in encrypt_loop cx padded (i + 16) block (result @ block)
      else result)"
  by pat_completeness auto
termination
  by (relation "measure (\<lambda>(cx, padded, i, prev, result). length padded - i)") auto

declare encrypt_loop.simps [simp del]

text \<open>The outcome of \<^verbatim>\<open>generateRandomBytes(iv, 16)\<close> is a parameter: \<open>None\<close> when it
  returns \<^verbatim>\<open>false\<close>, the sixteen bytes it wrote otherwise.\<close>

definition encrypt_result :: "Context \<Rightarrow> byte list \<Rightarrow> byte list option \<Rightarrow> error + byte list" where
  "encrypt_result cx plaintext rnd =
     (let padded = pkcs7Pad plaintext in
      case rnd of
        None \<Rightarrow> Inl RandomGenerationFailure
      | Some iv \<Rightarrow> Inr (encrypt_loop cx padded 0 iv iv))"

definition encrypt :: "Context \<Rightarrow> byte list \<Rightarrow> byte list option \<Rightarrow> byte list" where
  "encrypt cx plaintext rnd = sentinel (encrypt_result cx plaintext rnd)"

function decrypt_loop :: "Context \<Rightarrow> byte list \<Rightarrow> nat \<Rightarrow> byte list \<Rightarrow> byte list \<Rightarrow> byte list" where
  "decrypt_loop cx ciphertext i prev result =
     (if i < length ciphertext then
        let enc = take 16 (drop i ciphertext);
            block = decryptBlock cx enc;
            block = map (\<lambda>j. block ! j XOR prev ! j) [0..<16]
        in decrypt_loop cx ciphertext (i + 16) enc (result @ block)
      else result)"
  by pat_completeness auto
termination
  by (relation "measure (\<lambda>(cx, ciphertext, i, prev, result). length ciphertext - i)") auto

declare decrypt_loop.simps [simp del]

definition decrypt_result :: "Context \<Rightarrow> byte list \<Rightarrow> error + byte list" where
  "decrypt_result cx ciphertext =
     (if length ciphertext < 32 \<or> (length ciphertext - 16) mod 16 \<noteq> 0
      then Inl InvalidCiphertextLength
      else case pkcs7Unpad (decrypt_loop cx ciphertext 16 (take 16 ciphertext) []) of
             None \<Rightarrow> Inl InvalidPadding
           | Some result \<Rightarrow> Inr result)"

definition decrypt :: "Context \<Rightarrow> byte list \<Rightarrow> byte list" where
  "decrypt cx ciphertext = sentinel (decrypt_result cx ciphertext)"

definition encryptText :: "Context \<Rightarrow> string \<Rightarrow> byte list option \<Rightarrow> string" where
  "encryptText cx text rnd = bytesToHex (encrypt cx (string_bytes text) rnd)"

definition decryptText :: "Context \<Rightarrow> string \<Rightarrow> string" where
  "decryptText cx hexCipher =
     (let dec = decrypt cx (hexToBytes hexCipher) in if dec = [] then [] else bytes_string dec)"

section \<open>Auxiliary notions for the proofs\<close>

text \<open>A state is a 4 by 4 matrix of bytes.\<close>

definition is_state :: "state \<Rightarrow> bool" where
  "is_state st = (length st = 4 \<and> list_all (\<lambda>r. length r = 4) st)"

text \<open>The loops of \<open>encrypt\<close> and \<open>decrypt\<close> seen from the data: what they append when they
  start at the front of the remaining blocks with a given previous block.\<close>

function cbc_enc :: "Context \<Rightarrow> byte list \<Rightarrow> byte list \<Rightarrow> byte list" where
  "cbc_enc cx prev p =
     (if p = [] then []
      else let c = encryptBlock cx (map (\<lambda>j. p ! j XOR prev ! j) [0..<16])
           in c @ cbc_enc cx c (drop 16 p))"
  by pat_completeness auto
termination
  by (relation "measure (\<lambda>(cx, prev, p). length p)") auto

declare cbc_enc.simps [simp del]

function cbc_dec :: "Context \<Rightarrow> byte list \<Rightarrow> byte list \<Rightarrow> byte list" where
  "cbc_dec cx prev c =
     (if c = [] then []
      else map (\<lambda>j. decryptBlock cx (take 16 c) ! j XOR prev ! j) [0..<16]
           @ cbc_dec cx (take 16 c) (drop 16 c))"
  by pat_completeness auto
termination
  by (relation "measure (\<lambda>(cx, prev, c). length c)") auto

declare cbc_dec.simps [simp del]

text \<open>A decrypted block combined with the previous ciphertext block.\<close>

definition xor_block :: "byte list \<Rightarrow> byte list \<Rightarrow> byte list" where
  "xor_block d prev = map (\<lambda>j. d ! j XOR prev ! j) [0..<16]"

text \<open>Lowercase hexadecimal characters, and what the proofs need of the digit for \<open>d\<close>.\<close>

definition is_lower_hex :: "char \<Rightarrow> bool" where
  "is_lower_hex c = (c \<in> set ''0123456789abcdef'')"

definition digit_ok :: "nat \<Rightarrow> bool" where
  "digit_ok d = (hex_digit d \<noteq> CHR 0x00 \<and> \<not> is_space (hex_digit d) \<and> hex_digit d \<noteq> CHR ''-''
     \<and> hex_digit d \<noteq> CHR ''+'' \<and> hex_val (hex_digit d) = Some d
     \<and> is_lower_hex (hex_digit d))"

text \<open>The key schedule as the specification words it, on words of four bytes.\<close>

definition word_at :: "byte list \<Rightarrow> nat \<Rightarrow> byte list" where
  "word_at rk i = take 4 (drop (4 * i) rk)"

definition spec_rot_word :: "byte list \<Rightarrow> byte list" where
  "spec_rot_word w = [w ! 1, w ! 2, w ! 3, w ! 0]"

definition spec_sub_word :: "byte list \<Rightarrow> byte list" where
  "spec_sub_word w = map (\<lambda>x. sbox ! unat x) w"

definition spec_xor_first :: "byte \<Rightarrow> byte list \<Rightarrow> byte list" where
  "spec_xor_first c w = (w ! 0 XOR c) # tl w"

definition spec_xor_word :: "byte list \<Rightarrow> byte list \<Rightarrow> byte list" where
  "spec_xor_word a b = map (\<lambda>j. a ! j XOR b ! j) [0, 1, 2, 3]"

definition spec_transform :: "nat \<Rightarrow> byte list \<Rightarrow> byte list" where
  "spec_transform i w =
     (if i mod 8 = 0 then spec_xor_first (rcon ! (i div 8)) (spec_sub_word (spec_rot_word w))
      else if i mod 8 = 4 then spec_sub_word w
      else w)"

definition schedule_ok :: "byte list \<Rightarrow> nat \<Rightarrow> bool" where
  "schedule_ok rk i =
     (word_at rk i = spec_xor_word (word_at rk (i - 8)) (spec_transform i (word_at rk (i - 1))))"

text \<open>Appendix C.3 of FIPS-197: the 256-bit key, the plaintext block, the ciphertext block
  and the fifteen round keys of the example.\<close>

definition fips_key :: "byte list" where
  "fips_key = [0x00,0x01,0x02,0x03,0x04,0x05,0x06,0x07,0x08,0x09,0x0a,0x0b,0x0c,0x0d,0x0e,0x0f,
     0x10,0x11,0x12,0x13,0x14,0x15,0x16,0x17,0x18,0x19,0x1a,0x1b,0x1c,0x1d,0x1e,0x1f]"

definition fips_plain :: "byte list" where
  "fips_plain = [0x00,0x11,0x22,0x33,0x44,0x55,0x66,0x77,0x88,0x99,0xaa,0xbb,0xcc,0xdd,0xee,0xff]"

definition fips_cipher :: "byte list" where
  "fips_cipher = [0x8e,0xa2,0xb7,0xca,0x51,0x67,0x45,0xbf,0xea,0xfc,0x49,0x90,0x4b,0x49,0x60,0x89]"

definition fips_round_keys :: "byte list" where
  "fips_round_keys = [
     0x00,0x01,0x02,0x03,0x04,0x05,0x06,0x07,0x08,0x09,0x0a,0x0b,0x0c,0x0d,0x0e,0x0f,
     0x10,0x11,0x12,0x13,0x14,0x15,0x16,0x17,0x18,0x19,0x1a,0x1b,0x1c,0x1d,0x1e,0x1f,
     0xa5,0x73,0xc2,0x9f,0xa1,0x76,0xc4,0x98,0xa9,0x7f,0xce,0x93,0xa5,0x72,0xc0,0x9c,
     0x16,0x51,0xa8,0xcd,0x02,0x44,0xbe,0xda,0x1a,0x5d,0xa4,0xc1,0x06,0x40,0xba,0xde,
     0xae,0x87,0xdf,0xf0,0x0f,0xf1,0x1b,0x68,0xa6,0x8e,0xd5,0xfb,0x03,0xfc,0x15,0x67,
     0x6d,0xe1,0xf1,0x48,0x6f,0xa5,0x4f,0x92,0x75,0xf8,0xeb,0x53,0x73,0xb8,0x51,0x8d,
     0xc6,0x56,0x82,0x7f,0xc9,0xa7,0x99,0x17,0x6f,0x29,0x4c,0xec,0x6c,0xd5,0x59,0x8b,
     0x3d,0xe2,0x3a,0x75,0x52,0x47,0x75,0xe7,0x27,0xbf,0x9e,0xb4,0x54,0x07,0xcf,0x39,
     0x0b,0xdc,0x90,0x5f,0xc2,0x7b,0x09,0x48,0xad,0x52,0x45,0xa4,0xc1,0x87,0x1c,0x2f,
     0x45,0xf5,0xa6,0x60,0x17,0xb2,0xd3,0x87,0x30,0x0d,0x4d,0x33,0x64,0x0a,0x82,0x0a,
     0x7c,0xcf,0xf7,0x1c,0xbe,0xb4,0xfe,0x54,0x13,0xe6,0xbb,0xf0,0xd2,0x61,0xa7,0xdf,
     0xf0,0x1a,0xfa,0xfe,0xe7,0xa8,0x29,0x79,0xd7,0xa5,0x64,0x4a,0xb3,0xaf,0xe6,0x40,
     0x25,0x41,0xfe,0x71,0x9b,0xf5,0x00,0x25,0x88,0x13,0xbb,0xd5,0x5a,0x72,0x1c,0x0a,
     0x4e,0x5a,0x66,0x99,0xa9,0xf2,0x4f,0xe0,0x7e,0x57,0x2b,0xaa,0xcd,0xf8,0xcd,0xea,
     0x24,0xfc,0x79,0xcc,0xbf,0x09,0x79,0xe9,0x37,0x1a,0xc2,0x3c,0x6d,0x68,0xde,0x36]"

definition zero_block :: "byte list" where
  "zero_block = replicate 16 0"

definition zero_ctx :: Context where
  "zero_ctx = \<lparr>roundKey = replicate 240 0, Nr = 0\<rparr>"

text \<open>The digests of the empty message and of \<open>abc\<close> in FIPS 180-4.\<close>

definition digest_empty :: "byte list" where
  "digest_empty =
    [0xE3,0xB0,0xC4,0x42,0x98,0xFC,0x1C,0x14,0x9A,0xFB,0xF4,0xC8,0x99,0x6F,0xB9,0x24,
     0x27,0xAE,0x41,0xE4,0x64,0x9B,0x93,0x4C,0xA4,0x95,0x99,0x1B,0x78,0x52,0xB8,0x55]"

definition digest_abc :: "byte list" where
  "digest_abc =
    [0xBA,0x78,0x16,0xBF,0x8F,0x01,0xCF,0xEA,0x41,0x41,0x40,0xDE,0x5D,0xAE,0x22,0x23,
     0xB0,0x03,0x61,0xA3,0x96,0x17,0x7A,0x9C,0xB4,0x10,0xFF,0x61,0xF2,0x00,0x15,0xAD]"

section \<open>PKCS#7 padding\<close>

lemma pad_len_bounds: "1 \<le> 16 - n mod 16 \<and> 16 - n mod 16 \<le> (16::nat)"
proof -
  have "n mod 16 < 16" by simp
  then show ?thesis by linarith
qed

lemma pad_total_mod: "(n + (16 - n mod 16)) mod 16 = (0::nat)"
proof -
  have "n mod 16 < 16" by simp
  then have "n + (16 - n mod 16) = 16 * (n div 16) + 16"
    using div_mult_mod_eq[of n 16] by linarith
  then show ?thesis by simp
qed

lemma unat_pad_byte: "n \<le> 16 \<Longrightarrow> unat (of_nat n :: byte) = n"
  by (simp add: unat_of_nat)

lemma pad_byte_range: "1 \<le> n \<Longrightarrow> n \<le> 16 \<Longrightarrow> \<not> ((of_nat n :: byte) < 1 \<or> (of_nat n :: byte) > 16)"
  by (simp add: word_less_nat_alt unat_pad_byte)

lemma unpad_append:
  assumes n: "1 \<le> n" "n \<le> 16" and m: "(length data + n) mod 16 = 0"
  shows "pkcs7Unpad (data @ replicate n (of_nat n)) = Some data"
proof -
  let ?p = "data @ replicate n (of_nat n :: byte)"
  have ne: "?p \<noteq> []" using n by auto
  have l: "last ?p = of_nat n" using n by simp
  have u: "unat (of_nat n :: byte) = n" using n by (simp add: unat_pad_byte)
  have r: "\<not> ((of_nat n :: byte) < 1 \<or> (of_nat n :: byte) > 16)"
    using n by (rule pad_byte_range)
  have ex: "\<not> list_ex (\<lambda>i. ?p ! i \<noteq> of_nat n) [length ?p - n..<length ?p]"
    by (auto simp: list_ex_iff nth_append)
  show ?thesis
    unfolding pkcs7Unpad_def Let_def l u using ne m r ex by simp
qed

lemma unpad_pad: "pkcs7Unpad (pkcs7Pad data) = Some data"
proof -
  have "pkcs7Unpad (data @ replicate (16 - length data mod 16) (of_nat (16 - length data mod 16)))
        = Some data"
    using pad_len_bounds[of "length data"] pad_total_mod[of "length data"]
    by (intro unpad_append) simp_all
  then show ?thesis by (simp only: pkcs7Pad_def Let_def)
qed

lemma length_pad: "length (pkcs7Pad data) = length data + (16 - length data mod 16)"
  by (simp add: pkcs7Pad_def Let_def)

lemma length_pad_mod: "length (pkcs7Pad data) mod 16 = 0"
  unfolding length_pad by (rule pad_total_mod)


section \<open>The S-box tables\<close>

lemma length_sbox: "length sbox = 256" by (simp add: sbox_def)
lemma length_rsbox: "length rsbox = 256" by (simp add: rsbox_def)

lemma rsbox_sbox_table: "map (\<lambda>x. rsbox ! unat x) sbox = map of_nat [0..<256]"
  by code_simp

lemma sbox_rsbox_table: "map (\<lambda>x. sbox ! unat x) rsbox = map of_nat [0..<256]"
  by code_simp

lemma unat_byte_less: "unat (x :: byte) < 256"
  using unsigned_less[of x] by simp

lemma rsbox_sbox: "rsbox ! unat (sbox ! unat x) = x"
proof -
  have "map (\<lambda>x. rsbox ! unat x) sbox ! unat x = map of_nat [0..<256] ! unat x"
    by (simp only: rsbox_sbox_table)
  then show ?thesis
    using unat_byte_less[of x] by (simp add: length_sbox)
qed

lemma sbox_rsbox: "sbox ! unat (rsbox ! unat x) = x"
proof -
  have "map (\<lambda>x. sbox ! unat x) rsbox ! unat x = map of_nat [0..<256] ! unat x"
    by (simp only: sbox_rsbox_table)
  then show ?thesis
    using unat_byte_less[of x] by (simp add: length_rsbox)
qed

section \<open>Multiplication in the field and the column mix\<close>

lemma top_bit_test: "(drop_bit 7 (x :: byte) AND 1 \<noteq> 0) = bit x 7"
  by (simp add: bit_iff_and_drop_bit_eq_1 and_one_eq mod_2_eq_odd bit_iff_odd_drop_bit)

lemma xtime_xor: "xtime (a XOR b) = xtime a XOR xtime b"
  unfolding xtime_def top_bit_test
  by (simp add: push_bit_xor bit_xor_iff ac_simps)

lemma gmul_loop_numeral:
  "gmul_loop (numeral n) a b p =
     gmul_loop (pred_numeral n) (xtime a) (drop_bit 1 b) (if b AND 1 \<noteq> 0 then p XOR a else p)"
  by (simp add: numeral_eq_Suc)

lemma gmul_2: "gmul a 2 = xtime a"
  by (simp add: gmul_def gmul_loop_numeral xor.assoc)
lemma gmul_3: "gmul a 3 = a XOR xtime a"
  by (simp add: gmul_def gmul_loop_numeral xor.assoc)
lemma gmul_9: "gmul a 9 = a XOR xtime (xtime (xtime a))"
  by (simp add: gmul_def gmul_loop_numeral xor.assoc)
lemma gmul_11: "gmul a 11 = a XOR xtime a XOR xtime (xtime (xtime a))"
  by (simp add: gmul_def gmul_loop_numeral xor.assoc)
lemma gmul_13: "gmul a 13 = a XOR xtime (xtime a) XOR xtime (xtime (xtime a))"
  by (simp add: gmul_def gmul_loop_numeral xor.assoc)
lemma gmul_14: "gmul a 14 = xtime a XOR xtime (xtime a) XOR xtime (xtime (xtime a))"
  by (simp add: gmul_def gmul_loop_numeral xor.assoc)

lemmas gmul_consts = gmul_2 gmul_3 gmul_9 gmul_11 gmul_13 gmul_14

lemma xor_cancel_left: "(a :: byte) XOR (a XOR b) = b"
  by (simp flip: xor.assoc)

lemma xor_cancel_right: "((a :: byte) XOR b) XOR b = a"
  by (simp add: xor.assoc)

lemma inv_mix_col0:
  "gmul (gmul a0 2 XOR gmul a1 3 XOR a2 XOR a3) 14 XOR gmul (a0 XOR gmul a1 2 XOR gmul a2 3 XOR a3) 11
   XOR gmul (a0 XOR a1 XOR gmul a2 2 XOR gmul a3 3) 13 XOR gmul (gmul a0 3 XOR a1 XOR a2 XOR gmul a3 2) 9 = a0"
  by (simp add: gmul_consts xtime_xor xor_cancel_left ac_simps)

lemma inv_mix_col1:
  "gmul (gmul a0 2 XOR gmul a1 3 XOR a2 XOR a3) 9 XOR gmul (a0 XOR gmul a1 2 XOR gmul a2 3 XOR a3) 14
   XOR gmul (a0 XOR a1 XOR gmul a2 2 XOR gmul a3 3) 11 XOR gmul (gmul a0 3 XOR a1 XOR a2 XOR gmul a3 2) 13 = a1"
  by (simp add: gmul_consts xtime_xor xor_cancel_left ac_simps)

lemma inv_mix_col2:
  "gmul (gmul a0 2 XOR gmul a1 3 XOR a2 XOR a3) 13 XOR gmul (a0 XOR gmul a1 2 XOR gmul a2 3 XOR a3) 9
   XOR gmul (a0 XOR a1 XOR gmul a2 2 XOR gmul a3 3) 14 XOR gmul (gmul a0 3 XOR a1 XOR a2 XOR gmul a3 2) 11 = a2"
  by (simp add: gmul_consts xtime_xor xor_cancel_left ac_simps)

lemma inv_mix_col3:
  "gmul (gmul a0 2 XOR gmul a1 3 XOR a2 XOR a3) 11 XOR gmul (a0 XOR gmul a1 2 XOR gmul a2 3 XOR a3) 13
   XOR gmul (a0 XOR a1 XOR gmul a2 2 XOR gmul a3 3) 9 XOR gmul (gmul a0 3 XOR a1 XOR a2 XOR gmul a3 2) 14 = a3"
  by (simp add: gmul_consts xtime_xor xor_cancel_left ac_simps)

lemma mix_inv_col0:
  "gmul (gmul a0 14 XOR gmul a1 11 XOR gmul a2 13 XOR gmul a3 9) 2
   XOR gmul (gmul a0 9 XOR gmul a1 14 XOR gmul a2 11 XOR gmul a3 13) 3
   XOR (gmul a0 13 XOR gmul a1 9 XOR gmul a2 14 XOR gmul a3 11)
   XOR (gmul a0 11 XOR gmul a1 13 XOR gmul a2 9 XOR gmul a3 14) = a0"
  by (simp add: gmul_consts xtime_xor xor_cancel_left ac_simps)

lemma mix_inv_col1:
  "(gmul a0 14 XOR gmul a1 11 XOR gmul a2 13 XOR gmul a3 9)
   XOR gmul (gmul a0 9 XOR gmul a1 14 XOR gmul a2 11 XOR gmul a3 13) 2
   XOR gmul (gmul a0 13 XOR gmul a1 9 XOR gmul a2 14 XOR gmul a3 11) 3
   XOR (gmul a0 11 XOR gmul a1 13 XOR gmul a2 9 XOR gmul a3 14) = a1"
  by (simp add: gmul_consts xtime_xor xor_cancel_left ac_simps)

lemma mix_inv_col2:
  "(gmul a0 14 XOR gmul a1 11 XOR gmul a2 13 XOR gmul a3 9)
   XOR (gmul a0 9 XOR gmul a1 14 XOR gmul a2 11 XOR gmul a3 13)
   XOR gmul (gmul a0 13 XOR gmul a1 9 XOR gmul a2 14 XOR gmul a3 11) 2
   XOR gmul (gmul a0 11 XOR gmul a1 13 XOR gmul a2 9 XOR gmul a3 14) 3 = a2"
  by (simp add: gmul_consts xtime_xor xor_cancel_left ac_simps)

lemma mix_inv_col3:
  "gmul (gmul a0 14 XOR gmul a1 11 XOR gmul a2 13 XOR gmul a3 9) 3
   XOR (gmul a0 9 XOR gmul a1 14 XOR gmul a2 11 XOR gmul a3 13)
   XOR (gmul a0 13 XOR gmul a1 9 XOR gmul a2 14 XOR gmul a3 11)
   XOR gmul (gmul a0 11 XOR gmul a1 13 XOR gmul a2 9 XOR gmul a3 14) 2 = a3"
  by (simp add: gmul_consts xtime_xor xor_cancel_left ac_simps)

lemmas mix_cols = inv_mix_col0 inv_mix_col1 inv_mix_col2 inv_mix_col3
  mix_inv_col0 mix_inv_col1 mix_inv_col2 mix_inv_col3

lemma list4: "length xs = 4 \<Longrightarrow> \<exists>a b c d. xs = [a, b, c, d]"
  by (auto simp: eval_nat_numeral length_Suc_conv)

lemma is_state_cases:
  assumes "is_state st"
  obtains a0 a1 a2 a3 b0 b1 b2 b3 c0 c1 c2 c3 d0 d1 d2 d3 where
    "st = [[a0, a1, a2, a3], [b0, b1, b2, b3], [c0, c1, c2, c3], [d0, d1, d2, d3]]"
proof -
  from assms obtain r0 r1 r2 r3 where st: "st = [r0, r1, r2, r3]"
    using list4[of st] by (auto simp: is_state_def)
  with assms have "length r0 = 4" "length r1 = 4" "length r2 = 4" "length r3 = 4"
    by (simp_all add: is_state_def)
  then show ?thesis
    using list4[of r0] list4[of r1] list4[of r2] list4[of r3] st that by blast
qed

lemma is_state_addRoundKey [simp]: "is_state (addRoundKey cx st r)"
  by (simp add: is_state_def addRoundKey_def idx4_def)
lemma is_state_subBytes [simp]: "is_state (subBytes st)"
  by (simp add: is_state_def subBytes_def idx4_def)
lemma is_state_invSubBytes [simp]: "is_state (invSubBytes st)"
  by (simp add: is_state_def invSubBytes_def idx4_def)
lemma is_state_shiftRows [simp]: "is_state (shiftRows st)"
  by (simp add: is_state_def shiftRows_def)
lemma is_state_invShiftRows [simp]: "is_state (invShiftRows st)"
  by (simp add: is_state_def invShiftRows_def)
lemma is_state_mixColumns [simp]: "is_state (mixColumns st)"
  by (simp add: is_state_def mixColumns_def idx4_def)
lemma is_state_invMixColumns [simp]: "is_state (invMixColumns st)"
  by (simp add: is_state_def invMixColumns_def idx4_def)
lemma is_state_load [simp]: "is_state (load_state b)"
  by (simp add: is_state_def load_state_def idx4_def)

lemma addRoundKey_twice: "is_state st \<Longrightarrow> addRoundKey cx (addRoundKey cx st r) r = st"
  by (erule is_state_cases) (simp add: addRoundKey_def idx4_def xor_cancel_right)

lemma invShiftRows_shiftRows: "is_state st \<Longrightarrow> invShiftRows (shiftRows st) = st"
  by (erule is_state_cases) (simp add: shiftRows_def invShiftRows_def)

lemma shiftRows_invShiftRows: "is_state st \<Longrightarrow> shiftRows (invShiftRows st) = st"
  by (erule is_state_cases) (simp add: shiftRows_def invShiftRows_def)

lemma invMixColumns_mixColumns: "is_state st \<Longrightarrow> invMixColumns (mixColumns st) = st"
  by (erule is_state_cases) (simp add: mixColumns_def invMixColumns_def idx4_def mix_cols)

lemma mixColumns_invMixColumns: "is_state st \<Longrightarrow> mixColumns (invMixColumns st) = st"
  by (erule is_state_cases) (simp add: mixColumns_def invMixColumns_def idx4_def mix_cols)

section \<open>The block cipher\<close>

lemma invSubBytes_subBytes: "is_state st \<Longrightarrow> invSubBytes (subBytes st) = st"
  by (erule is_state_cases) (simp add: subBytes_def invSubBytes_def idx4_def rsbox_sbox)

lemma subBytes_invSubBytes: "is_state st \<Longrightarrow> subBytes (invSubBytes st) = st"
  by (erule is_state_cases) (simp add: subBytes_def invSubBytes_def idx4_def sbox_rsbox)

lemma list16:
  assumes "length b = 16"
  obtains x0 x1 x2 x3 x4 x5 x6 x7 x8 x9 x10 x11 x12 x13 x14 x15 where
    "b = [x0, x1, x2, x3, x4, x5, x6, x7, x8, x9, x10, x11, x12, x13, x14, x15]"
proof -
  from assms obtain x0 x1 x2 x3 r1 where 1: "b = x0 # x1 # x2 # x3 # r1" "length r1 = 12"
    by (auto simp: eval_nat_numeral length_Suc_conv)
  then obtain x4 x5 x6 x7 r2 where 2: "r1 = x4 # x5 # x6 # x7 # r2" "length r2 = 8"
    by (auto simp: eval_nat_numeral length_Suc_conv)
  then obtain x8 x9 x10 x11 r3 where 3: "r2 = x8 # x9 # x10 # x11 # r3" "length r3 = 4"
    by (auto simp: eval_nat_numeral length_Suc_conv)
  then obtain x12 x13 x14 x15 where 4: "r3 = [x12, x13, x14, x15]"
    using list4 by blast
  show ?thesis using that 1 2 3 4 by blast
qed

lemma store_load: "length b = 16 \<Longrightarrow> store_state (load_state b) = b"
  by (erule list16) (simp add: store_state_def load_state_def idx4_def)

lemma load_store: "is_state st \<Longrightarrow> load_state (store_state st) = st"
  by (erule is_state_cases) (simp add: store_state_def load_state_def idx4_def)

lemma length_store [simp]: "length (store_state st) = 16"
  by (simp add: store_state_def idx4_def)

lemma is_state_enc_round [simp]: "is_state (enc_round cx r st)"
  by (simp add: enc_round_def)

lemma is_state_dec_round [simp]: "is_state (dec_round cx r st)"
  by (simp add: dec_round_def)

lemma is_state_fold_enc: "is_state st \<Longrightarrow> is_state (fold (enc_round cx) rs st)"
  by (induction rs arbitrary: st) simp_all

lemma is_state_fold_dec: "is_state st \<Longrightarrow> is_state (fold (dec_round cx) rs st)"
  by (induction rs arbitrary: st) simp_all

lemma dec_enc_round:
  "is_state st \<Longrightarrow>
     dec_round cx r (shiftRows (subBytes (enc_round cx r st))) = shiftRows (subBytes st)"
  by (simp add: dec_round_def enc_round_def invShiftRows_shiftRows invSubBytes_subBytes
      addRoundKey_twice invMixColumns_mixColumns)

lemma enc_dec_round:
  "is_state st \<Longrightarrow>
     enc_round cx r (invSubBytes (invShiftRows (dec_round cx r st))) = invSubBytes (invShiftRows st)"
  by (simp add: dec_round_def enc_round_def shiftRows_invShiftRows subBytes_invSubBytes
      addRoundKey_twice mixColumns_invMixColumns)

lemma dec_enc_rounds:
  "is_state st \<Longrightarrow>
     fold (dec_round cx) (rev rs) (shiftRows (subBytes (fold (enc_round cx) rs st)))
       = shiftRows (subBytes st)"
proof (induction rs arbitrary: st)
  case Nil
  then show ?case by simp
next
  case (Cons r rs)
  have "fold (dec_round cx) (rev (r # rs)) (shiftRows (subBytes (fold (enc_round cx) (r # rs) st)))
      = dec_round cx r (fold (dec_round cx) (rev rs)
          (shiftRows (subBytes (fold (enc_round cx) rs (enc_round cx r st)))))"
    by simp
  also have "\<dots> = dec_round cx r (shiftRows (subBytes (enc_round cx r st)))"
    by (simp add: Cons.IH)
  also have "\<dots> = shiftRows (subBytes st)"
    using Cons.prems by (rule dec_enc_round)
  finally show ?case .
qed

lemma enc_dec_rounds:
  "is_state st \<Longrightarrow>
     fold (enc_round cx) rs (invSubBytes (invShiftRows (fold (dec_round cx) (rev rs) st)))
       = invSubBytes (invShiftRows st)"
proof (induction rs arbitrary: st rule: rev_induct)
  case Nil
  then show ?case by simp
next
  case (snoc r rs)
  have "fold (enc_round cx) (rs @ [r])
          (invSubBytes (invShiftRows (fold (dec_round cx) (rev (rs @ [r])) st)))
      = enc_round cx r (fold (enc_round cx) rs
          (invSubBytes (invShiftRows (fold (dec_round cx) (rev rs) (dec_round cx r st)))))"
    by simp
  also have "\<dots> = enc_round cx r (invSubBytes (invShiftRows (dec_round cx r st)))"
    by (simp add: snoc.IH)
  also have "\<dots> = invSubBytes (invShiftRows st)"
    using snoc.prems by (rule enc_dec_round)
  finally show ?case .
qed

lemma decryptBlock_encryptBlock:
  assumes "length b = 16"
  shows "decryptBlock cx (encryptBlock cx b) = b"
proof -
  define s0 where "s0 = addRoundKey cx (load_state b) 0"
  define s1 where "s1 = fold (enc_round cx) [1..<Nr cx] s0"
  define s2 where "s2 = shiftRows (subBytes s1)"
  have e: "encryptBlock cx b = store_state (addRoundKey cx s2 (Nr cx))"
    by (simp add: encryptBlock_def Let_def s0_def s1_def s2_def)
  have st: "is_state s0" "is_state s1" "is_state s2"
    by (simp_all add: s0_def s1_def s2_def is_state_fold_enc)
  have "addRoundKey cx (load_state (encryptBlock cx b)) (Nr cx) = s2"
    by (simp add: e load_store addRoundKey_twice st)
  moreover have "fold (dec_round cx) (rev [1..<Nr cx]) s2 = shiftRows (subBytes s0)"
    unfolding s2_def s1_def using st(1) by (rule dec_enc_rounds)
  moreover have "addRoundKey cx (invSubBytes (invShiftRows (shiftRows (subBytes s0)))) 0
      = load_state b"
    by (simp add: invShiftRows_shiftRows invSubBytes_subBytes st s0_def addRoundKey_twice)
  ultimately show ?thesis
    using assms by (simp add: decryptBlock_def Let_def store_load)
qed

lemma encryptBlock_decryptBlock:
  assumes "length b = 16"
  shows "encryptBlock cx (decryptBlock cx b) = b"
proof -
  define s0 where "s0 = addRoundKey cx (load_state b) (Nr cx)"
  define s1 where "s1 = fold (dec_round cx) (rev [1..<Nr cx]) s0"
  define s2 where "s2 = invSubBytes (invShiftRows s1)"
  have d: "decryptBlock cx b = store_state (addRoundKey cx s2 0)"
    by (simp add: decryptBlock_def Let_def s0_def s1_def s2_def)
  have st: "is_state s0" "is_state s1" "is_state s2"
    by (simp_all add: s0_def s1_def s2_def is_state_fold_dec)
  have "addRoundKey cx (load_state (decryptBlock cx b)) 0 = s2"
    by (simp add: d load_store addRoundKey_twice st)
  moreover have "fold (enc_round cx) [1..<Nr cx] s2 = invSubBytes (invShiftRows s0)"
    unfolding s2_def s1_def using st(1) by (rule enc_dec_rounds)
  moreover have "addRoundKey cx (shiftRows (subBytes (invSubBytes (invShiftRows s0)))) (Nr cx)
      = load_state b"
    by (simp add: shiftRows_invShiftRows subBytes_invSubBytes st s0_def addRoundKey_twice)
  ultimately show ?thesis
    using assms by (simp add: encryptBlock_def Let_def store_load)
qed

lemma length_encryptBlock [simp]: "length (encryptBlock cx b) = 16"
  by (simp add: encryptBlock_def Let_def)

lemma length_decryptBlock [simp]: "length (decryptBlock cx b) = 16"
  by (simp add: decryptBlock_def Let_def)

section \<open>Cipher block chaining\<close>

lemma blocks_step:
  assumes "i < length xs" "(length xs - i) mod 16 = 0"
  shows "i + 16 \<le> length xs" "(length xs - (i + 16)) mod 16 = 0"
proof -
  from assms(2) obtain k where k: "length xs - i = 16 * k" by (auto simp: mod_eq_0_iff_dvd)
  with assms(1) have "0 < k" by (cases k) simp_all
  then obtain k' where k': "k = Suc k'" by (cases k) simp_all
  from k k' show "i + 16 \<le> length xs" by simp
  from k k' have "length xs - (i + 16) = 16 * k'" by simp
  then show "(length xs - (i + 16)) mod 16 = 0" by simp
qed

lemma blocks_first:
  assumes "p \<noteq> []" "length p mod 16 = 0"
  shows "16 \<le> length p" "length (drop 16 p) mod 16 = 0"
  using blocks_step[of 0 p] assms by simp_all

lemma cbc_enc_Nil: "cbc_enc cx prev [] = []"
  by (subst cbc_enc.simps) simp

lemma cbc_dec_Nil: "cbc_dec cx prev [] = []"
  by (subst cbc_dec.simps) simp

lemma encrypt_loop_done: "\<not> i < length padded \<Longrightarrow> encrypt_loop cx padded i prev result = result"
  by (subst encrypt_loop.simps) simp

lemma decrypt_loop_done: "\<not> i < length ct \<Longrightarrow> decrypt_loop cx ct i prev result = result"
  by (subst decrypt_loop.simps) simp

lemma encrypt_loop_cbc:
  "i \<le> length padded \<Longrightarrow> (length padded - i) mod 16 = 0 \<Longrightarrow>
     encrypt_loop cx padded i prev result = result @ cbc_enc cx prev (drop i padded)"
proof (induction cx padded i prev result rule: encrypt_loop.induct)
  case (1 cx padded i prev result)
  show ?case
  proof (cases "i < length padded")
    case False
    with "1.prems" show ?thesis
      by (simp add: encrypt_loop_done cbc_enc_Nil)
  next
    case True
    note st = blocks_step[OF True "1.prems"(2)]
    let ?x = "map (\<lambda>j. padded ! (i + j) XOR prev ! j) [0..<16]"
    have x: "map (\<lambda>j. drop i padded ! j XOR prev ! j) [0..<16] = ?x"
      using st(1) by (intro map_cong) (simp_all add: nth_drop)
    have ne: "drop i padded \<noteq> []" using True by simp
    have "encrypt_loop cx padded i prev result
        = encrypt_loop cx padded (i + 16) (encryptBlock cx ?x) (result @ encryptBlock cx ?x)"
      using True by (simp add: encrypt_loop.simps[of cx padded i] Let_def)
    also have "\<dots> = (result @ encryptBlock cx ?x)
        @ cbc_enc cx (encryptBlock cx ?x) (drop (i + 16) padded)"
      using st by (intro "1.IH"[OF True refl]) simp_all
    also have "\<dots> = result @ cbc_enc cx prev (drop i padded)"
      using ne by (simp add: cbc_enc.simps[of cx prev "drop i padded"] Let_def x add.commute)
    finally show ?thesis .
  qed
qed

lemma decrypt_loop_cbc:
  "i \<le> length ct \<Longrightarrow> (length ct - i) mod 16 = 0 \<Longrightarrow>
     decrypt_loop cx ct i prev result = result @ cbc_dec cx prev (drop i ct)"
proof (induction cx ct i prev result rule: decrypt_loop.induct)
  case (1 cx ct i prev result)
  show ?case
  proof (cases "i < length ct")
    case False
    with "1.prems" show ?thesis
      by (simp add: decrypt_loop_done cbc_dec_Nil)
  next
    case True
    note st = blocks_step[OF True "1.prems"(2)]
    let ?e = "take 16 (drop i ct)"
    let ?b = "map (\<lambda>j. decryptBlock cx ?e ! j XOR prev ! j) [0..<16]"
    have ne: "drop i ct \<noteq> []" using True by simp
    have "decrypt_loop cx ct i prev result = decrypt_loop cx ct (i + 16) ?e (result @ ?b)"
      using True by (simp add: decrypt_loop.simps[of cx ct i] Let_def)
    also have "\<dots> = (result @ ?b) @ cbc_dec cx ?e (drop (i + 16) ct)"
      using st by (intro "1.IH"[OF True refl refl refl]) simp_all
    also have "\<dots> = result @ cbc_dec cx prev (drop i ct)"
      using ne by (simp add: cbc_dec.simps[of cx prev "drop i ct"] add.commute)
    finally show ?thesis .
  qed
qed

lemma length_cbc_enc:
  "length p mod 16 = 0 \<Longrightarrow> length (cbc_enc cx prev p) = length p"
proof (induction cx prev p rule: cbc_enc.induct)
  case (1 cx prev p)
  show ?case
  proof (cases "p = []")
    case True
    then show ?thesis by (simp add: cbc_enc_Nil)
  next
    case False
    note st = blocks_first[OF False "1.prems"]
    let ?c = "encryptBlock cx (map (\<lambda>j. p ! j XOR prev ! j) [0..<16])"
    have "length (cbc_enc cx ?c (drop 16 p)) = length (drop 16 p)"
      using st by (intro "1.IH"[OF False refl]) simp_all
    then show ?thesis
      using False st by (simp add: cbc_enc.simps[of cx prev p] Let_def)
  qed
qed

lemma take16_nth: "16 \<le> length p \<Longrightarrow> map (\<lambda>j. p ! j) [0..<16] = take 16 p"
  by (rule nth_equalityI) simp_all

lemma cbc_dec_enc:
  "length p mod 16 = 0 \<Longrightarrow> length prev = 16 \<Longrightarrow> cbc_dec cx prev (cbc_enc cx prev p) = p"
proof (induction cx prev p rule: cbc_enc.induct)
  case (1 cx prev p)
  show ?case
  proof (cases "p = []")
    case True
    then show ?thesis by (simp add: cbc_enc_Nil cbc_dec_Nil)
  next
    case False
    note st = blocks_first[OF False "1.prems"(1)]
    let ?x = "map (\<lambda>j. p ! j XOR prev ! j) [0..<16]"
    let ?c = "encryptBlock cx ?x"
    have e: "cbc_enc cx prev p = ?c @ cbc_enc cx ?c (drop 16 p)"
      using False by (simp add: cbc_enc.simps[of cx prev p] Let_def)
    have d: "decryptBlock cx ?c = ?x" by (simp add: decryptBlock_encryptBlock)
    have b: "map (\<lambda>j. ?x ! j XOR prev ! j) [0..<16] = take 16 p"
    proof -
      have "map (\<lambda>j. ?x ! j XOR prev ! j) [0..<16] = map (\<lambda>j. p ! j) [0..<16]"
        by (intro map_cong) (simp_all add: xor_cancel_right)
      then show ?thesis using st(1) by (simp add: take16_nth)
    qed
    have ih: "cbc_dec cx ?c (cbc_enc cx ?c (drop 16 p)) = drop 16 p"
      using st by (intro "1.IH"[OF False refl]) simp_all
    have "cbc_dec cx prev (?c @ cbc_enc cx ?c (drop 16 p))
        = map (\<lambda>j. decryptBlock cx ?c ! j XOR prev ! j) [0..<16]
          @ cbc_dec cx ?c (cbc_enc cx ?c (drop 16 p))"
    proof -
      have "?c \<noteq> []"
        by (metis length_encryptBlock list.size(3) zero_neq_numeral)
      then show ?thesis by (subst cbc_dec.simps) simp
    qed
    then show ?thesis
      unfolding e d b ih by simp
  qed
qed

lemma encrypt_result_cbc:
  "encrypt_result cx P (Some iv) = Inr (iv @ cbc_enc cx iv (pkcs7Pad P))"
  by (simp add: encrypt_result_def Let_def encrypt_loop_cbc length_pad_mod)

lemma decrypt_result_cbc:
  assumes "length iv = 16" "length c mod 16 = 0" "c \<noteq> []"
  shows "decrypt_result cx (iv @ c) =
     (case pkcs7Unpad (cbc_dec cx iv c) of None \<Rightarrow> Inl InvalidPadding | Some r \<Rightarrow> Inr r)"
proof -
  have "16 \<le> length c" using assms(2,3) by (intro blocks_first(1))
  then have len: "\<not> (length (iv @ c) < 32 \<or> (length (iv @ c) - 16) mod 16 \<noteq> 0)"
    using assms by simp
  have "decrypt_loop cx (iv @ c) 16 iv [] = [] @ cbc_dec cx iv (drop 16 (iv @ c))"
    using assms by (intro decrypt_loop_cbc) simp_all
  then have "decrypt_loop cx (iv @ c) 16 (take 16 (iv @ c)) [] = cbc_dec cx iv c"
    using assms(1) by simp
  then show ?thesis
    using len unfolding decrypt_result_def by (simp only: if_False)
qed

lemma pad_nonempty: "pkcs7Pad P \<noteq> []"
  using pad_len_bounds[of "length P"] by (auto simp: pkcs7Pad_def Let_def)

lemma decrypt_encrypt_result:
  assumes "length iv = 16"
  shows "decrypt_result cx (iv @ cbc_enc cx iv (pkcs7Pad P)) = Inr P"
proof -
  let ?c = "cbc_enc cx iv (pkcs7Pad P)"
  have l: "length ?c = length (pkcs7Pad P)" by (simp add: length_cbc_enc length_pad_mod)
  then have ne: "?c \<noteq> []" using pad_nonempty[of P] by auto
  have "decrypt_result cx (iv @ ?c) =
     (case pkcs7Unpad (cbc_dec cx iv ?c) of None \<Rightarrow> Inl InvalidPadding | Some r \<Rightarrow> Inr r)"
    using assms ne by (intro decrypt_result_cbc) (simp_all add: l length_pad_mod)
  then show ?thesis
    using assms by (simp add: cbc_dec_enc length_pad_mod unpad_pad)
qed


section \<open>Tampering with one byte\<close>

lemma length_cbc_dec:
  "length c mod 16 = 0 \<Longrightarrow> length (cbc_dec cx prev c) = length c"
proof (induction cx prev c rule: cbc_dec.induct)
  case (1 cx prev c)
  show ?case
  proof (cases "c = []")
    case True
    then show ?thesis by (simp add: cbc_dec_Nil)
  next
    case False
    note st = blocks_first[OF False "1.prems"]
    have "length (cbc_dec cx (take 16 c) (drop 16 c)) = length (drop 16 c)"
      using st by (intro "1.IH"[OF False]) simp_all
    then show ?thesis
      using False st by (subst cbc_dec.simps) simp
  qed
qed

lemma decryptBlock_inj:
  assumes "length x = 16" "length y = 16" "decryptBlock cx x = decryptBlock cx y"
  shows "x = y"
proof -
  have "encryptBlock cx (decryptBlock cx x) = encryptBlock cx (decryptBlock cx y)"
    using assms(3) by simp
  then show ?thesis using assms(1,2) by (simp add: encryptBlock_decryptBlock)
qed

lemma length_xor_block [simp]: "length (xor_block d prev) = 16"
  by (simp add: xor_block_def)

lemma xor_block_nth: "j < 16 \<Longrightarrow> xor_block d prev ! j = d ! j XOR prev ! j"
  by (simp add: xor_block_def)

lemma byte_xor_left_cancel: "((a :: byte) XOR b = a XOR c) = (b = c)"
  by (metis xor_cancel_left)

lemma byte_xor_right_cancel: "((a :: byte) XOR c = b XOR c) = (a = b)"
  by (metis xor_cancel_right)

lemma xor_block_prev_update:
  assumes "pos < 16" "length prev = 16" "v \<noteq> prev ! pos"
  shows "xor_block d (prev[pos := v]) \<noteq> xor_block d prev"
proof
  assume "xor_block d (prev[pos := v]) = xor_block d prev"
  then have "xor_block d (prev[pos := v]) ! pos = xor_block d prev ! pos" by simp
  then show False using assms by (simp add: xor_block_nth byte_xor_left_cancel)
qed

lemma xor_block_data_inj:
  assumes "length d = 16" "length d' = 16" "xor_block d prev = xor_block d' prev"
  shows "d = d'"
proof (rule nth_equalityI)
  show "length d = length d'" using assms by simp
next
  fix j assume "j < length d"
  then have j: "j < 16" using assms by simp
  from assms(3) have "xor_block d prev ! j = xor_block d' prev ! j" by simp
  then show "d ! j = d' ! j" using j by (simp add: xor_block_nth byte_xor_right_cancel)
qed

lemma cbc_dec_step:
  "c \<noteq> [] \<Longrightarrow>
     cbc_dec cx prev c = xor_block (decryptBlock cx (take 16 c)) prev
                          @ cbc_dec cx (take 16 c) (drop 16 c)"
  by (subst cbc_dec.simps) (simp add: xor_block_def)

lemma cbc_dec_tamper:
  assumes "length c mod 16 = 0" "c \<noteq> []" "length prev = 16" "length prev' = 16"
    "pos < 16 + length c" "v \<noteq> (prev @ c) ! pos" "prev' @ c' = (prev @ c)[pos := v]"
  shows "cbc_dec cx prev' c' \<noteq> cbc_dec cx prev c"
  using assms
proof (induction cx prev c arbitrary: prev' c' pos rule: cbc_dec.induct)
  case (1 cx prev c)
  note st = blocks_first[OF "1.prems"(2,1)]
  have lc: "length c' = length c"
  proof -
    have "length (prev' @ c') = length (prev @ c)" using "1.prems"(7) by simp
    then show ?thesis using "1.prems"(3,4) by simp
  qed
  then have ne': "c' \<noteq> []" using "1.prems"(2) by auto
  let ?B = "xor_block (decryptBlock cx (take 16 c)) prev"
  let ?B' = "xor_block (decryptBlock cx (take 16 c')) prev'"
  let ?R = "cbc_dec cx (take 16 c) (drop 16 c)"
  let ?R' = "cbc_dec cx (take 16 c') (drop 16 c')"
  have e: "cbc_dec cx prev c = ?B @ ?R" using "1.prems"(2) by (rule cbc_dec_step)
  have e': "cbc_dec cx prev' c' = ?B' @ ?R'" using ne' by (rule cbc_dec_step)
  have "?B' \<noteq> ?B \<or> ?R' \<noteq> ?R"
  proof (cases "pos < 16")
    case True
    with "1.prems"(3,7) have "prev' @ c' = prev[pos := v] @ c"
      by (simp add: list_update_append)
    with "1.prems"(3,4) have p: "prev' = prev[pos := v]" and c: "c' = c" by simp_all
    from True "1.prems"(3,6) have "v \<noteq> prev ! pos" by (simp add: nth_append)
    with True "1.prems"(3) show ?thesis
      unfolding p c by (intro disjI1 xor_block_prev_update)
  next
    case False
    with "1.prems"(3,7) have "prev' @ c' = prev @ c[pos - 16 := v]"
      by (simp add: list_update_append)
    with "1.prems"(3,4) have p: "prev' = prev" and c: "c' = c[pos - 16 := v]" by simp_all
    from False "1.prems"(3,6) have v: "v \<noteq> c ! (pos - 16)" by (simp add: nth_append)
    from False "1.prems"(5) have q: "pos - 16 < length c" by simp
    show ?thesis
    proof (cases "drop 16 c = []")
      case True
      with st(1) have l16: "length c = 16" by simp
      have "c' \<noteq> c"
      proof
        assume "c' = c"
        then have "c' ! (pos - 16) = c ! (pos - 16)" by simp
        then show False using v q by (simp add: c)
      qed
      then have "decryptBlock cx c' \<noteq> decryptBlock cx c"
        using decryptBlock_inj[of c' c cx] l16 lc by auto
      then have "xor_block (decryptBlock cx c') prev \<noteq> xor_block (decryptBlock cx c) prev"
        using xor_block_data_inj[of "decryptBlock cx c'" "decryptBlock cx c" prev] by auto
      then show ?thesis using l16 lc by (simp add: p)
    next
      case ne: False
      have t: "take 16 c' @ drop 16 c' = (take 16 c @ drop 16 c)[pos - 16 := v]"
        by (simp add: c)
      have "?R' \<noteq> ?R"
      proof (rule "1.IH"[OF "1.prems"(2) st(2) ne _ _ _ _ t])
        show "length (take 16 c) = 16" using st(1) by simp
        show "length (take 16 c') = 16" using st(1) lc by simp
        show "pos - 16 < 16 + length (drop 16 c)" using q st(1) by simp
        show "v \<noteq> (take 16 c @ drop 16 c) ! (pos - 16)" using v by simp
      qed
      then show ?thesis by simp
    qed
  qed
  then show ?case unfolding e e' by auto
qed

lemma unpad_Some:
  assumes "pkcs7Unpad X = Some P"
  shows "X = P @ replicate (length X - length P) (of_nat (length X - length P))"
proof -
  let ?pad = "last X"
  let ?n = "unat ?pad"
  from assms have ne: "X \<noteq> []" and m: "length X mod 16 = 0"
    and r: "\<not> (?pad < 1 \<or> ?pad > 16)"
    and ex: "\<not> list_ex (\<lambda>i. X ! i \<noteq> ?pad) [length X - ?n..<length X]"
    and P: "P = take (length X - ?n) X"
    by (auto simp: pkcs7Unpad_def Let_def split: if_splits)
  from r have n: "?n \<le> 16" by (simp add: word_le_nat_alt not_less)
  have l: "16 \<le> length X" using ne m by (intro blocks_first(1))
  have lp: "length X - length P = ?n" using n l by (simp add: P)
  have d: "drop (length X - ?n) X = replicate ?n ?pad"
  proof (rule nth_equalityI)
    show "length (drop (length X - ?n) X) = length (replicate ?n ?pad)" using n l by simp
  next
    fix i assume "i < length (drop (length X - ?n) X)"
    then have i: "i < ?n" using n l by simp
    then have "length X - ?n + i \<in> set [length X - ?n..<length X]"
      using n l unfolding set_upt atLeastLessThan_iff by linarith
    with ex have "X ! (length X - ?n + i) = ?pad" by (auto simp: list_ex_iff)
    then show "drop (length X - ?n) X ! i = replicate ?n ?pad ! i" using i n l by simp
  qed
  have "X = take (length X - ?n) X @ drop (length X - ?n) X" by simp
  then show ?thesis unfolding lp d P[symmetric] by simp
qed

lemma unpad_same_length:
  assumes "pkcs7Unpad X = Some P" "pkcs7Unpad Y = Some P" "length X = length Y"
  shows "X = Y"
  using unpad_Some[OF assms(1)] unpad_Some[OF assms(2)] assms(3) by simp

lemma tamper_result:
  assumes iv: "length iv = 16"
    and pos: "pos < length (iv @ cbc_enc cx iv (pkcs7Pad P))"
    and v: "v \<noteq> (iv @ cbc_enc cx iv (pkcs7Pad P)) ! pos"
  shows "decrypt_result cx ((iv @ cbc_enc cx iv (pkcs7Pad P))[pos := v]) \<noteq> Inr P"
proof -
  let ?E = "cbc_enc cx iv (pkcs7Pad P)"
  let ?C' = "(iv @ ?E)[pos := v]"
  let ?iv' = "take 16 ?C'"
  let ?E' = "drop 16 ?C'"
  have lE: "length ?E = length (pkcs7Pad P)" by (simp add: length_cbc_enc length_pad_mod)
  then have neE: "?E \<noteq> []" using pad_nonempty[of P] by auto
  have mE: "length ?E mod 16 = 0" by (simp add: lE length_pad_mod)
  have liv': "length ?iv' = 16" using iv by simp
  have lE': "length ?E' = length ?E" using iv by simp
  then have neE': "?E' \<noteq> []" using neE by auto
  have split: "?iv' @ ?E' = (iv @ ?E)[pos := v]" by simp
  have dec: "decrypt_result cx (?iv' @ ?E') =
     (case pkcs7Unpad (cbc_dec cx ?iv' ?E') of None \<Rightarrow> Inl InvalidPadding | Some r \<Rightarrow> Inr r)"
    using liv' neE' mE lE' by (intro decrypt_result_cbc) simp_all
  have diff: "cbc_dec cx ?iv' ?E' \<noteq> cbc_dec cx iv ?E"
    using mE neE iv liv' pos v split by (intro cbc_dec_tamper[where pos = pos and v = v]) simp_all
  have orig: "cbc_dec cx iv ?E = pkcs7Pad P"
    using iv by (simp add: cbc_dec_enc length_pad_mod)
  have len: "length (cbc_dec cx ?iv' ?E') = length (pkcs7Pad P)"
    using mE lE' lE by (simp add: length_cbc_dec)
  show ?thesis
  proof
    assume "decrypt_result cx ?C' = Inr P"
    then have "pkcs7Unpad (cbc_dec cx ?iv' ?E') = Some P"
      using dec by (simp split: option.splits)
    then have "cbc_dec cx ?iv' ?E' = pkcs7Pad P"
      using unpad_pad[of P] len by (intro unpad_same_length)
    then show False using diff orig by simp
  qed
qed

section \<open>Hexadecimal text\<close>

lemma hex_digits_byte:
  assumes "n < 256"
  shows "setw_fill 2 (CHR ''0'') (hex_digits n) = [hex_digit (n div 16), hex_digit (n mod 16)]"
proof (cases "n < 16")
  case True
  then show ?thesis
    by (simp add: hex_digits.simps[of n] setw_fill_def hex_digit_def)
next
  case False
  with assms have "n div 16 < 16" by simp
  then have "hex_digits (n div 16) = [hex_digit (n div 16)]"
    by (simp add: hex_digits.simps[of "n div 16"])
  with False show ?thesis
    by (simp add: hex_digits.simps[of n] setw_fill_def)
qed

lemma digits_ok: "list_all digit_ok [0..<16]"
  by code_simp

lemma digit_ok: "d < 16 \<Longrightarrow> digit_ok d"
  using digits_ok by (simp add: list_all_iff)

lemma strtol16_digits:
  assumes "a < 16" "b < 16"
  shows "strtol16 [hex_digit a, hex_digit b] = int (a * 16 + b)"
  using digit_ok[OF assms(1)] digit_ok[OF assms(2)]
  by (simp add: strtol16_def digit_ok_def Let_def)

lemma byte_of_digits: "(of_int (int (unat b div 16 * 16 + unat b mod 16)) :: byte) = b"
  by simp

lemma hexToBytes_append2:
  "hexToBytes ([a, b] @ rest) = of_int (strtol16 [a, b]) # hexToBytes rest"
  by simp

lemma hexToBytes_bytesToHex: "hexToBytes (bytesToHex d) = d"
proof (induction d)
  case Nil
  then show ?case by (simp add: bytesToHex_def)
next
  case (Cons b d)
  have n: "unat b < 256" using unsigned_less[of b] by simp
  then have q: "unat b div 16 < 16" "unat b mod 16 < 16" by simp_all
  have "bytesToHex (b # d) = [hex_digit (unat b div 16), hex_digit (unat b mod 16)] @ bytesToHex d"
    by (simp add: bytesToHex_def hex_digits_byte[OF n])
  then have "hexToBytes (bytesToHex (b # d))
      = of_int (strtol16 [hex_digit (unat b div 16), hex_digit (unat b mod 16)])
        # hexToBytes (bytesToHex d)"
    by (simp only: hexToBytes_append2)
  then show ?case
    by (simp only: strtol16_digits[OF q] byte_of_digits Cons.IH)
qed

lemma length_bytesToHex: "length (bytesToHex d) = 2 * length d"
proof (induction d)
  case Nil
  then show ?case by (simp add: bytesToHex_def)
next
  case (Cons b d)
  have n: "unat b < 256" using unsigned_less[of b] by simp
  have "bytesToHex (b # d) = [hex_digit (unat b div 16), hex_digit (unat b mod 16)] @ bytesToHex d"
    by (simp add: bytesToHex_def hex_digits_byte[OF n])
  then show ?case using Cons.IH by simp
qed

lemma lower_hex_bytesToHex: "list_all is_lower_hex (bytesToHex d)"
proof (induction d)
  case Nil
  then show ?case by (simp add: bytesToHex_def)
next
  case (Cons b d)
  have n: "unat b < 256" using unsigned_less[of b] by simp
  then have q: "unat b div 16 < 16" "unat b mod 16 < 16" by simp_all
  have e: "bytesToHex (b # d) = [hex_digit (unat b div 16), hex_digit (unat b mod 16)] @ bytesToHex d"
    by (simp add: bytesToHex_def hex_digits_byte[OF n])
  show ?case
    unfolding e using Cons.IH digit_ok[OF q(1)] digit_ok[OF q(2)]
    by (simp add: digit_ok_def)
qed

section \<open>The key schedule\<close>

lemma word_at_nth:
  assumes "4 * i + 4 \<le> length rk"
  shows "word_at rk i = [rk ! (4 * i), rk ! (4 * i + 1), rk ! (4 * i + 2), rk ! (4 * i + 3)]"
proof (rule nth_equalityI)
  show "length (word_at rk i) = length [rk ! (4 * i), rk ! (4 * i + 1), rk ! (4 * i + 2), rk ! (4 * i + 3)]"
    using assms by (simp add: word_at_def)
next
  fix j assume "j < length (word_at rk i)"
  then have j: "j < 4" using assms by (simp add: word_at_def)
  then consider "j = 0" | "j = 1" | "j = 2" | "j = 3" by linarith
  then show "word_at rk i ! j = [rk ! (4 * i), rk ! (4 * i + 1), rk ! (4 * i + 2), rk ! (4 * i + 3)] ! j"
    using assms by cases (simp_all add: word_at_def)
qed

lemma length_expand_word [simp]: "length (expand_word Nk i rk) = length rk"
  by (simp add: expand_word_def Let_def idx4_def)

lemma expand_word_below:
  "m < 4 * i \<Longrightarrow> expand_word Nk i rk ! m = rk ! m"
  by (simp add: expand_word_def Let_def idx4_def)

lemma expand_word_new:
  assumes "8 \<le> i" "4 * i + 4 \<le> length rk"
  shows "word_at (expand_word 8 i rk) i
       = spec_xor_word (word_at rk (i - 8)) (spec_transform i (word_at rk (i - 1)))"
proof -
  from assms(1) obtain n where n: "i = n + 8" using le_Suc_ex by (metis add.commute)
  have a: "4 * n + 4 \<le> length rk" "4 * (n + 7) + 4 \<le> length rk"
    "4 * (n + 8) + 4 \<le> length (expand_word 8 (n + 8) rk)"
    using assms(2) unfolding n by simp_all
  have s: "n + 8 - 8 = n" "n + 8 - 1 = n + 7" by simp_all
  show ?thesis
    unfolding n s word_at_nth[OF a(1)] word_at_nth[OF a(2)] word_at_nth[OF a(3)]
    using assms(2)[unfolded n]
    by (simp add: expand_word_def Let_def idx4_def spec_xor_word_def spec_transform_def
        spec_xor_first_def spec_sub_word_def spec_rot_word_def algebra_simps)
qed

lemma word_at_agree:
  assumes "\<forall>m<4 * n. rk' ! m = rk ! m" "j < n" "length rk' = length rk" "4 * n \<le> length rk"
  shows "word_at rk' j = word_at rk j"
proof -
  have l: "4 * j + 4 \<le> length rk" "4 * j + 4 \<le> length rk'" using assms(2,3,4) by simp_all
  have "4 * j < 4 * n" "4 * j + 1 < 4 * n" "4 * j + 2 < 4 * n" "4 * j + 3 < 4 * n"
    using assms(2) by simp_all
  then show ?thesis
    unfolding word_at_nth[OF l(1)] word_at_nth[OF l(2)] using assms(1) by simp
qed

lemma schedule_invariant:
  assumes "length rk0 = 240" "8 \<le> n"
  shows "n \<le> 60 \<longrightarrow>
      length (fold (expand_word 8) [8..<n] rk0) = 240
    \<and> (\<forall>m<32. fold (expand_word 8) [8..<n] rk0 ! m = rk0 ! m)
    \<and> (\<forall>i. 8 \<le> i \<and> i < n \<longrightarrow> schedule_ok (fold (expand_word 8) [8..<n] rk0) i)"
  using assms(2)
proof (induction n rule: nat_induct_at_least)
  case base
  then show ?case using assms(1) by auto
next
  case (Suc n)
  show ?case
  proof
    assume n60: "Suc n \<le> 60"
    let ?rk = "fold (expand_word 8) [8..<n] rk0"
    let ?rk' = "expand_word 8 n ?rk"
    from Suc.IH n60 have len: "length ?rk = 240"
      and low: "\<forall>m<32. ?rk ! m = rk0 ! m"
      and ok: "\<forall>i. 8 \<le> i \<and> i < n \<longrightarrow> schedule_ok ?rk i"
      by simp_all
    have f: "fold (expand_word 8) [8..<Suc n] rk0 = ?rk'"
      using Suc.hyps by simp
    have below: "\<forall>m<4 * n. ?rk' ! m = ?rk ! m"
      by (simp add: expand_word_below)
    have bound: "4 * n + 4 \<le> length ?rk" "4 * n \<le> length ?rk" using n60 len by simp_all
    have agree: "word_at ?rk' j = word_at ?rk j" if "j < n" for j
      using below that _ bound(2) by (rule word_at_agree) simp
    have l': "length ?rk' = 240" using len by simp
    have low': "\<forall>m<32. ?rk' ! m = rk0 ! m"
      using low Suc.hyps by (simp add: expand_word_below)
    have ok': "schedule_ok ?rk' i" if i: "8 \<le> i" "i < Suc n" for i
    proof (cases "i = n")
      case True
      have "word_at ?rk' n
          = spec_xor_word (word_at ?rk (n - 8)) (spec_transform n (word_at ?rk (n - 1)))"
        using Suc.hyps bound(1) by (rule expand_word_new)
      moreover have "word_at ?rk' (n - 8) = word_at ?rk (n - 8)"
        "word_at ?rk' (n - 1) = word_at ?rk (n - 1)"
        using Suc.hyps by (simp_all add: agree)
      ultimately show ?thesis by (simp add: schedule_ok_def True)
    next
      case False
      with i have lt: "i < n" by simp
      then have "schedule_ok ?rk i" using ok i(1) by simp
      moreover have "word_at ?rk' i = word_at ?rk i" "word_at ?rk' (i - 8) = word_at ?rk (i - 8)"
        "word_at ?rk' (i - 1) = word_at ?rk (i - 1)"
        using lt by (simp_all add: agree)
      ultimately show ?thesis by (simp add: schedule_ok_def)
    qed
    show "length (fold (expand_word 8) [8..<Suc n] rk0) = 240
      \<and> (\<forall>m<32. fold (expand_word 8) [8..<Suc n] rk0 ! m = rk0 ! m)
      \<and> (\<forall>i. 8 \<le> i \<and> i < Suc n \<longrightarrow> schedule_ok (fold (expand_word 8) [8..<Suc n] rk0) i)"
      unfolding f using l' low' ok' by blast
  qed
qed

lemma roundKey_keyExpansion:
  "roundKey (keyExpansion c0 k) = fold (expand_word 8) [8..<60] (take 32 k @ drop 32 (roundKey c0))"
  by (simp add: keyExpansion_def Let_def)

lemma Nr_keyExpansion [simp]: "Nr (keyExpansion c0 k) = 14"
  by (simp add: keyExpansion_def Let_def)

lemma keyExpansion_schedule:
  assumes "length k = 32" "length (roundKey c0) = 240"
  shows "length (roundKey (keyExpansion c0 k)) = 240"
    and "take 32 (roundKey (keyExpansion c0 k)) = k"
    and "8 \<le> i \<Longrightarrow> i < 60 \<Longrightarrow> schedule_ok (roundKey (keyExpansion c0 k)) i"
proof -
  let ?rk0 = "take 32 k @ drop 32 (roundKey c0)"
  have l0: "length ?rk0 = 240" using assms by simp
  have e: "8 \<le> (60::nat)" by simp
  note inv = schedule_invariant[OF l0 e, THEN mp, OF order_refl, folded roundKey_keyExpansion]
  from inv show len: "length (roundKey (keyExpansion c0 k)) = 240" by simp
  show "take 32 (roundKey (keyExpansion c0 k)) = k"
  proof (rule nth_equalityI)
    show "length (take 32 (roundKey (keyExpansion c0 k))) = length k" using len assms by simp
  next
    fix m assume "m < length (take 32 (roundKey (keyExpansion c0 k)))"
    then have m: "m < 32" by simp
    with inv have "roundKey (keyExpansion c0 k) ! m = ?rk0 ! m" by simp
    then show "take 32 (roundKey (keyExpansion c0 k)) ! m = k ! m"
      using m assms by (simp add: nth_append)
  qed
  show "8 \<le> i \<Longrightarrow> i < 60 \<Longrightarrow> schedule_ok (roundKey (keyExpansion c0 k)) i"
    using inv by simp
qed

section \<open>The known-answer test of FIPS-197\<close>

lemma word_at_key:
  assumes "i < 8"
  shows "word_at rk i = word_at (take 32 rk) i"
proof -
  have "min 4 (32 - 4 * i) = 4" using assms by simp
  then show ?thesis by (simp add: word_at_def drop_take)
qed

lemma schedule_words_unique:
  assumes "take 32 rk = take 32 rk'"
    and "\<forall>i. 8 \<le> i \<and> i < n \<longrightarrow> schedule_ok rk i \<and> schedule_ok rk' i"
  shows "i < n \<Longrightarrow> word_at rk i = word_at rk' i"
proof (induction i rule: less_induct)
  case (less i)
  show ?case
  proof (cases "i < 8")
    case True
    then show ?thesis using assms(1) word_at_key[of i rk] word_at_key[of i rk'] by simp
  next
    case False
    then have i: "8 \<le> i" by simp
    with less.prems assms(2) have ok: "schedule_ok rk i" "schedule_ok rk' i" by simp_all
    have "word_at rk (i - 8) = word_at rk' (i - 8)" "word_at rk (i - 1) = word_at rk' (i - 1)"
      using i less.prems by (simp_all add: less.IH)
    then show ?thesis using ok by (simp add: schedule_ok_def)
  qed
qed

lemma word_at_byte:
  assumes "m < length rk"
  shows "word_at rk (m div 4) ! (m mod 4) = rk ! m"
proof -
  have "4 * (m div 4) + m mod 4 = m" by simp
  moreover have "4 * (m div 4) \<le> length rk" using assms by simp
  ultimately show ?thesis by (simp add: word_at_def)
qed

lemma schedule_unique:
  assumes "length rk = 240" "length rk' = 240" "take 32 rk = take 32 rk'"
    and "\<forall>i. 8 \<le> i \<and> i < 60 \<longrightarrow> schedule_ok rk i \<and> schedule_ok rk' i"
  shows "rk = rk'"
proof (rule nth_equalityI)
  show "length rk = length rk'" using assms by simp
next
  fix m assume m: "m < length rk"
  then have "m div 4 < 60" using assms(1) by simp
  then have "word_at rk (m div 4) = word_at rk' (m div 4)"
    using assms(3,4) by (intro schedule_words_unique[where n = 60]) simp_all
  then have "word_at rk (m div 4) ! (m mod 4) = word_at rk' (m div 4) ! (m mod 4)" by simp
  then show "rk ! m = rk' ! m"
    using m assms(1,2) by (simp add: word_at_byte)
qed

lemma keyExpansion_record:
  "keyExpansion c0 k = \<lparr>roundKey = roundKey (keyExpansion c0 k), Nr = 14\<rparr>"
  by (cases c0) (simp add: keyExpansion_def Let_def)

lemma fips_schedule:
  "length fips_round_keys = 240 \<and> take 32 fips_round_keys = fips_key
   \<and> list_all (schedule_ok fips_round_keys) [8..<60]"
  by code_simp

lemma fips_keyExpansion:
  assumes "length (roundKey c0) = 240"
  shows "keyExpansion c0 fips_key = \<lparr>roundKey = fips_round_keys, Nr = 14\<rparr>"
proof -
  have k: "length fips_key = 32" by (simp add: fips_key_def)
  have ok: "schedule_ok fips_round_keys i" if "8 \<le> i" "i < 60" for i
  proof -
    have "list_all (schedule_ok fips_round_keys) [8..<60]" using fips_schedule by blast
    then have "\<forall>x\<in>set [8..<60]. schedule_ok fips_round_keys x" by (simp only: list_all_iff)
    moreover have "i \<in> set [8..<60]" unfolding set_upt atLeastLessThan_iff using that by blast
    ultimately show ?thesis by blast
  qed
  have "roundKey (keyExpansion c0 fips_key) = fips_round_keys"
  proof (rule schedule_unique)
    show "length (roundKey (keyExpansion c0 fips_key)) = 240"
      using k assms by (rule keyExpansion_schedule(1))
    show "length fips_round_keys = 240" using fips_schedule by simp
    show "take 32 (roundKey (keyExpansion c0 fips_key)) = take 32 fips_round_keys"
      using keyExpansion_schedule(2)[OF k assms] fips_schedule by simp
    show "\<forall>i. 8 \<le> i \<and> i < 60 \<longrightarrow>
        schedule_ok (roundKey (keyExpansion c0 fips_key)) i \<and> schedule_ok fips_round_keys i"
      using keyExpansion_schedule(3)[OF k assms] ok by blast
  qed
  then show ?thesis using keyExpansion_record[of c0 fips_key] by simp
qed

lemma fips_encrypt:
  "encryptBlock \<lparr>roundKey = fips_round_keys, Nr = 14\<rparr> fips_plain = fips_cipher"
  by code_simp

lemma fips_decrypt:
  "decryptBlock \<lparr>roundKey = fips_round_keys, Nr = 14\<rparr> fips_cipher = fips_plain"
proof -
  have "length fips_plain = 16" by (simp add: fips_plain_def)
  then have "decryptBlock \<lparr>roundKey = fips_round_keys, Nr = 14\<rparr>
      (encryptBlock \<lparr>roundKey = fips_round_keys, Nr = 14\<rparr> fips_plain) = fips_plain"
    by (rule decryptBlock_encryptBlock)
  then show ?thesis by (simp only: fips_encrypt)
qed

lemma zero_block_not_fips_cipher:
  "encryptBlock \<lparr>roundKey = fips_round_keys, Nr = 14\<rparr> zero_block \<noteq> fips_cipher"
proof
  assume "encryptBlock \<lparr>roundKey = fips_round_keys, Nr = 14\<rparr> zero_block = fips_cipher"
  then have "decryptBlock \<lparr>roundKey = fips_round_keys, Nr = 14\<rparr>
      (encryptBlock \<lparr>roundKey = fips_round_keys, Nr = 14\<rparr> zero_block) = fips_plain"
    by (simp only: fips_decrypt)
  moreover have "length zero_block = 16" by (simp add: zero_block_def)
  ultimately have "zero_block = fips_plain" by (simp add: decryptBlock_encryptBlock)
  then have "zero_block ! 1 = fips_plain ! 1" by simp
  then show False by (simp add: zero_block_def fips_plain_def)
qed

section \<open>SHA-256 test vectors\<close>

lemma hash_empty: "hash [] = digest_empty"
  by code_simp

lemma hash_abc: "hash (string_bytes ''abc'') = digest_abc"
  by code_simp

lemma toHex_digest_empty:
  "toHex digest_empty = ''e3b0c44298fc1c149afbf4c8996fb92427ae41e4649b934ca495991b7852b855''"
  by code_simp

lemma toHex_digest_abc:
  "toHex digest_abc = ''ba7816bf8f01cfea414140de5dae2223b00361a396177a9cb410ff61f20015ad''"
  by code_simp

section \<open>The claims\<close>

text \<open>Claim C1. For every byte sequence \<open>P\<close>, the empty one included, and every password,
  when the random source delivers its sixteen bytes, decrypting what \<open>encrypt\<close> returned under
  the key derived from the password returns exactly \<open>P\<close>.\<close>

theorem decrypt_encrypt_roundtrip:
  assumes "length iv = 16"
  shows "decrypt (ctx (setKey c password)) (encrypt (ctx (setKey c password)) P (Some iv)) = P"
  using decrypt_encrypt_result[OF assms]
  by (simp add: decrypt_def encrypt_def sentinel_def encrypt_result_cbc)

theorem decrypt_encrypt_roundtrip_witness:
  "length (replicate 16 (0::byte)) = 16
   \<and> decrypt (ctx (setKey \<lparr>key = [], ctx = \<lparr>roundKey = replicate 240 0, Nr = 0\<rparr>\<rparr> ''pw''))
        (encrypt (ctx (setKey \<lparr>key = [], ctx = \<lparr>roundKey = replicate 240 0, Nr = 0\<rparr>\<rparr> ''pw''))
           [] (Some (replicate 16 0))) = []"
  using decrypt_encrypt_roundtrip[of "replicate 16 0"
      "\<lparr>key = [], ctx = \<lparr>roundKey = replicate 240 0, Nr = 0\<rparr>\<rparr>" "''pw''" "[]"]
  by simp

text \<open>Claim C6. \<open>decrypt\<close> rejects every input shorter than 32 bytes or whose length minus 16
  is not a multiple of 16, lengths 31, 16 and 33 among them, with the invalid-length failure;
  the answer does not depend on the round keys, so no block is processed.\<close>

theorem decrypt_rejects_length:
  "length ciphertext < 32 \<or> (length ciphertext - 16) mod 16 \<noteq> 0 \<Longrightarrow>
     decrypt_result cx ciphertext = Inl InvalidCiphertextLength \<and> decrypt cx ciphertext = []"
  by (simp add: decrypt_result_def decrypt_def sentinel_def)

theorem decrypt_rejects_length_witness:
  "(length (replicate 31 (0::byte)) < 32 \<or> (length (replicate 31 (0::byte)) - 16) mod 16 \<noteq> 0)
   \<and> decrypt_result \<lparr>roundKey = replicate 240 0, Nr = 14\<rparr> (replicate 31 0)
        = Inl InvalidCiphertextLength
   \<and> decrypt_result \<lparr>roundKey = replicate 240 0, Nr = 14\<rparr> (replicate 16 0)
        = Inl InvalidCiphertextLength
   \<and> decrypt_result \<lparr>roundKey = replicate 240 0, Nr = 14\<rparr> (replicate 33 0)
        = Inl InvalidCiphertextLength"
  using decrypt_rejects_length[of "replicate 31 0" "\<lparr>roundKey = replicate 240 0, Nr = 14\<rparr>"]
    decrypt_rejects_length[of "replicate 16 0" "\<lparr>roundKey = replicate 240 0, Nr = 14\<rparr>"]
    decrypt_rejects_length[of "replicate 33 0" "\<lparr>roundKey = replicate 240 0, Nr = 14\<rparr>"]
  by simp

text \<open>Claim C7. \<open>pkcs7Pad\<close> appends \<open>16 - |data| mod 16\<close> bytes, a count between 1 and 16,
  each equal to the count, so a length that is a multiple of 16 gains a whole block; and
  \<open>pkcs7Unpad\<close> of the padded data succeeds with the data.\<close>

theorem pkcs7_padding_law:
  "pkcs7Pad data = data @ replicate (16 - length data mod 16) (of_nat (16 - length data mod 16))
   \<and> 1 \<le> 16 - length data mod 16 \<and> 16 - length data mod 16 \<le> 16
   \<and> (length data mod 16 = 0 \<longrightarrow> length (pkcs7Pad data) = length data + 16)
   \<and> pkcs7Unpad (pkcs7Pad data) = Some data"
  using pad_len_bounds[of "length data"]
  by (simp add: unpad_pad length_pad) (simp add: pkcs7Pad_def Let_def)

theorem pkcs7_padding_law_witness:
  "length (replicate 16 (0::byte)) mod 16 = 0
   \<and> length (pkcs7Pad (replicate 16 0)) = length (replicate 16 (0::byte)) + 16
   \<and> pkcs7Unpad (pkcs7Pad (replicate 16 0)) = Some (replicate 16 0)"
proof -
  note t = pkcs7_padding_law[of "replicate 16 (0::byte)", THEN conjunct2, THEN conjunct2,
      THEN conjunct2]
  show ?thesis using t by simp
qed

text \<open>Claim C10. With the round keys expanded from a 32-byte key, \<open>encryptBlock\<close> and
  \<open>decryptBlock\<close> undo each other on every 16-byte block, and each of them is a bijection of
  the 16-byte blocks.\<close>

theorem block_cipher_inverse:
  assumes "length k = 32" and "length b = 16" and "cx = keyExpansion c0 k"
  shows "decryptBlock cx (encryptBlock cx b) = b \<and> encryptBlock cx (decryptBlock cx b) = b
    \<and> bij_betw (encryptBlock cx) {x. length x = 16} {x. length x = 16}
    \<and> bij_betw (decryptBlock cx) {x. length x = 16} {x. length x = 16}"
proof -
  have "bij_betw (encryptBlock cx) {x. length x = 16} {x. length x = 16}"
    by (rule bij_betw_byWitness[where f' = "decryptBlock cx"])
      (auto simp: decryptBlock_encryptBlock encryptBlock_decryptBlock)
  moreover have "bij_betw (decryptBlock cx) {x. length x = 16} {x. length x = 16}"
    by (rule bij_betw_byWitness[where f' = "encryptBlock cx"])
      (auto simp: decryptBlock_encryptBlock encryptBlock_decryptBlock)
  ultimately show ?thesis
    using assms(2) by (simp add: decryptBlock_encryptBlock encryptBlock_decryptBlock)
qed

theorem block_cipher_inverse_witness:
  "length (replicate 32 (0::byte)) = 32 \<and> length (replicate 16 (0::byte)) = 16
   \<and> decryptBlock (keyExpansion \<lparr>roundKey = replicate 240 0, Nr = 0\<rparr> (replicate 32 0))
        (encryptBlock (keyExpansion \<lparr>roundKey = replicate 240 0, Nr = 0\<rparr> (replicate 32 0))
           (replicate 16 0)) = replicate 16 0
   \<and> encryptBlock (keyExpansion \<lparr>roundKey = replicate 240 0, Nr = 0\<rparr> (replicate 32 0))
        (decryptBlock (keyExpansion \<lparr>roundKey = replicate 240 0, Nr = 0\<rparr> (replicate 32 0))
           (replicate 16 0)) = replicate 16 0"
  using block_cipher_inverse[of "replicate 32 0" "replicate 16 0"
      "keyExpansion \<lparr>roundKey = replicate 240 0, Nr = 0\<rparr> (replicate 32 0)"
      "\<lparr>roundKey = replicate 240 0, Nr = 0\<rparr>"]
  by simp

text \<open>Claim C5. Take a ciphertext returned by a successful \<open>encrypt\<close> of \<open>P\<close> and replace
  the byte at any one position by a different value. Then \<open>decrypt\<close> with the same round keys
  does not succeed with \<open>P\<close>: it fails, or it returns another plaintext.\<close>

theorem tamper_sensitivity:
  assumes "length iv = 16" and "encrypt_result cx P (Some iv) = Inr C"
    and "pos < length C" and "v \<noteq> C ! pos"
  shows "decrypt_result cx (C[pos := v]) \<noteq> Inr P"
  using assms tamper_result[of iv pos cx P v] by (simp add: encrypt_result_cbc)

theorem tamper_sensitivity_witness:
  "length (replicate 16 (0::byte)) = 16
   \<and> encrypt_result \<lparr>roundKey = replicate 240 0, Nr = 14\<rparr> [] (Some (replicate 16 0))
       = Inr (encrypt \<lparr>roundKey = replicate 240 0, Nr = 14\<rparr> [] (Some (replicate 16 0)))
   \<and> 0 < length (encrypt \<lparr>roundKey = replicate 240 0, Nr = 14\<rparr> [] (Some (replicate 16 0)))
   \<and> 1 \<noteq> encrypt \<lparr>roundKey = replicate 240 0, Nr = 14\<rparr> [] (Some (replicate 16 0)) ! 0
   \<and> decrypt_result \<lparr>roundKey = replicate 240 0, Nr = 14\<rparr>
        ((encrypt \<lparr>roundKey = replicate 240 0, Nr = 14\<rparr> [] (Some (replicate 16 0)))[0 := 1])
       \<noteq> Inr []"
proof -
  let ?cx = "\<lparr>roundKey = replicate 240 (0::byte), Nr = 14\<rparr>"
  let ?iv = "replicate 16 (0::byte)"
  let ?C = "encrypt ?cx [] (Some ?iv)"
  have C: "?C = ?iv @ cbc_enc ?cx ?iv (pkcs7Pad [])"
    by (simp add: encrypt_def sentinel_def encrypt_result_cbc)
  have h1: "length ?iv = 16" by simp
  have h2: "encrypt_result ?cx [] (Some ?iv) = Inr ?C"
    by (simp add: encrypt_def sentinel_def encrypt_result_cbc)
  have h3: "0 < length ?C" unfolding C by simp
  have h4: "1 \<noteq> ?C ! 0" unfolding C by (simp add: nth_append)
  show ?thesis
    using h1 h2 h3 h4 tamper_sensitivity[OF h1 h2 h3 h4] by blast
qed

text \<open>Claim C9. \<open>bytesToHex\<close> writes two lowercase hexadecimal characters for each byte, so
  the text-mode ciphertext is twice as long as the ciphertext, and \<open>hexToBytes\<close> reads the
  bytes back: \<open>hexToBytes (bytesToHex d) = d\<close>.\<close>

theorem hex_roundtrip:
  "length (bytesToHex d) = 2 * length d
   \<and> list_all is_lower_hex (bytesToHex d)
   \<and> length (encryptText cx text rnd) = 2 * length (encrypt cx (string_bytes text) rnd)
   \<and> hexToBytes (bytesToHex d) = d"
  by (simp add: length_bytesToHex lower_hex_bytesToHex hexToBytes_bytesToHex encryptText_def)

text \<open>Claim C8. For a 32-byte key the expansion fills the 240 bytes, that is 60 words or 15
  round keys; words 0 to 7 are the key; and every word \<open>i\<close> from 8 to 59 is the word eight places
  before it XORed with the previous word transformed: rotated, substituted through the S-box
  and with \<open>rcon ! (i div 8)\<close> XORed into its first byte when \<open>i mod 8 = 0\<close>, substituted
  when \<open>i mod 8 = 4\<close>, unchanged otherwise.\<close>

theorem key_expansion_recurrence:
  assumes "length k = 32" and "length (roundKey c0) = 240"
  shows "length (roundKey (keyExpansion c0 k)) = 4 * 60
    \<and> Nr (keyExpansion c0 k) + 1 = 15
    \<and> take 32 (roundKey (keyExpansion c0 k)) = k
    \<and> (\<forall>i. 8 \<le> i \<and> i < 60 \<longrightarrow>
          word_at (roundKey (keyExpansion c0 k)) i
          = spec_xor_word (word_at (roundKey (keyExpansion c0 k)) (i - 8))
              (spec_transform i (word_at (roundKey (keyExpansion c0 k)) (i - 1))))"
  using keyExpansion_schedule[OF assms] by (simp add: schedule_ok_def)

theorem key_expansion_recurrence_witness:
  "length (replicate 32 (0::byte)) = 32
   \<and> length (roundKey \<lparr>roundKey = replicate 240 0, Nr = 0\<rparr>) = 240
   \<and> length (roundKey (keyExpansion \<lparr>roundKey = replicate 240 0, Nr = 0\<rparr> (replicate 32 0))) = 4 * 60
   \<and> word_at (roundKey (keyExpansion \<lparr>roundKey = replicate 240 0, Nr = 0\<rparr> (replicate 32 0))) 8
       = spec_xor_word (word_at (roundKey (keyExpansion \<lparr>roundKey = replicate 240 0, Nr = 0\<rparr> (replicate 32 0))) 0)
           (spec_transform 8 (word_at (roundKey (keyExpansion \<lparr>roundKey = replicate 240 0, Nr = 0\<rparr> (replicate 32 0))) 7))"
proof -
  have h1: "length (replicate 32 (0::byte)) = 32" by simp
  have h2: "length (roundKey \<lparr>roundKey = replicate 240 (0::byte), Nr = 0\<rparr>) = 240" by simp
  note t = key_expansion_recurrence[OF h1 h2]
  from t have "8 \<le> (8::nat) \<and> (8::nat) < 60 \<longrightarrow>
      word_at (roundKey (keyExpansion \<lparr>roundKey = replicate 240 0, Nr = 0\<rparr> (replicate 32 0))) 8
       = spec_xor_word (word_at (roundKey (keyExpansion \<lparr>roundKey = replicate 240 0, Nr = 0\<rparr> (replicate 32 0))) (8 - 8))
           (spec_transform 8 (word_at (roundKey (keyExpansion \<lparr>roundKey = replicate 240 0, Nr = 0\<rparr> (replicate 32 0))) (8 - 1)))"
    by blast
  then show ?thesis using t h1 h2 by simp
qed


text \<open>Claim C4, as amended. With the round keys expanded from the 256-bit key of FIPS-197
  (Appendix C.3), \<open>encryptBlock\<close> maps the plaintext block of that example,
  \<open>00112233445566778899aabbccddeeff\<close>, to the published ciphertext block
  \<open>8ea2b7ca516745bfeafc49904b496089\<close>, and \<open>decryptBlock\<close> maps the ciphertext block back.
  The all-zero block is not the plaintext of the example: it does not encrypt to the published
  block.\<close>

theorem fips_known_answer:
  assumes "length (roundKey c0) = 240"
  shows "encryptBlock (keyExpansion c0 fips_key) fips_plain = fips_cipher
    \<and> decryptBlock (keyExpansion c0 fips_key) fips_cipher = fips_plain"
  using fips_keyExpansion[OF assms] by (simp add: fips_encrypt fips_decrypt)

theorem fips_known_answer_witness:
  "length (roundKey zero_ctx) = 240
   \<and> encryptBlock (keyExpansion zero_ctx fips_key) fips_plain = fips_cipher
   \<and> decryptBlock (keyExpansion zero_ctx fips_key) fips_cipher = fips_plain"
proof -
  have h: "length (roundKey zero_ctx) = 240" by (simp add: zero_ctx_def)
  show ?thesis using h fips_known_answer[OF h] by simp
qed

text \<open>Claim C4 as it was stated, with the all-zero block in place of the plaintext of the
  example, is false: encryption is injective, so the all-zero block cannot share the ciphertext
  block of another plaintext.\<close>

theorem zero_block_counterexample:
  "\<not> (encryptBlock (keyExpansion zero_ctx fips_key) zero_block = fips_cipher
      \<and> decryptBlock (keyExpansion zero_ctx fips_key) fips_cipher = zero_block)"
proof -
  have h: "length (roundKey zero_ctx) = 240" by (simp add: zero_ctx_def)
  show ?thesis
    using zero_block_not_fips_cipher by (simp add: fips_keyExpansion[OF h])
qed


text \<open>Claim C2 fails for \<open>decrypt\<close>. Every failure returns the empty sequence, and a successful
  \<open>encrypt\<close> never does; but the ciphertext of the empty plaintext decrypts, with valid padding,
  to the empty sequence, which is also what a failure returns.\<close>

theorem empty_plaintext_sentinel:
  assumes "length iv = 16"
  shows "encrypt cx P None = []
    \<and> encrypt cx P (Some iv) \<noteq> []
    \<and> decrypt_result cx (encrypt cx [] (Some iv)) = Inr []
    \<and> decrypt cx (encrypt cx [] (Some iv)) = []
    \<and> decryptText cx (encryptText cx [] (Some iv)) = []"
proof -
  have e: "encrypt cx P (Some iv) = iv @ cbc_enc cx iv (pkcs7Pad P)" for P
    by (simp add: encrypt_def sentinel_def encrypt_result_cbc)
  have ne: "encrypt cx P (Some iv) \<noteq> []" using assms unfolding e by auto
  have d: "decrypt_result cx (encrypt cx [] (Some iv)) = Inr []"
    unfolding e using assms by (rule decrypt_encrypt_result)
  then have s: "decrypt cx (encrypt cx [] (Some iv)) = []"
    by (simp add: decrypt_def sentinel_def)
  have "decryptText cx (encryptText cx [] (Some iv)) = []"
    by (simp add: decryptText_def encryptText_def hexToBytes_bytesToHex string_bytes_def s)
  then show ?thesis
    using ne d s by (simp add: encrypt_def sentinel_def encrypt_result_def)
qed

theorem empty_plaintext_sentinel_witness:
  "length (replicate 16 (0::byte)) = 16
   \<and> decrypt_result zero_ctx (encrypt zero_ctx [] (Some (replicate 16 0))) = Inr []
   \<and> decrypt zero_ctx (encrypt zero_ctx [] (Some (replicate 16 0))) = []
   \<and> decrypt zero_ctx (replicate 31 0) = []"
proof -
  have h: "length (replicate 16 (0::byte)) = 16" by simp
  have "decrypt zero_ctx (replicate 31 0) = []"
    by (simp add: decrypt_def decrypt_result_def sentinel_def)
  then show ?thesis using h empty_plaintext_sentinel[OF h, of zero_ctx "[]"] by simp
qed

text \<open>Claim C3. The digest of the empty byte sequence is
  \<open>e3b0c44298fc1c149afbf4c8996fb92427ae41e4649b934ca495991b7852b855\<close> and the digest of the
  three bytes \<open>abc\<close> is \<open>ba7816bf8f01cfea414140de5dae2223b00361a396177a9cb410ff61f20015ad\<close>,
  each of 32 bytes.\<close>

theorem sha256_test_vectors:
  "toHex (hash []) = ''e3b0c44298fc1c149afbf4c8996fb92427ae41e4649b934ca495991b7852b855''
   \<and> toHex (hash (string_bytes ''abc''))
       = ''ba7816bf8f01cfea414140de5dae2223b00361a396177a9cb410ff61f20015ad''
   \<and> hash [] = digest_empty \<and> hash (string_bytes ''abc'') = digest_abc
   \<and> length (hash []) = 32 \<and> length (hash (string_bytes ''abc'')) = 32"
  by (simp add: hash_empty hash_abc toHex_digest_empty toHex_digest_abc)
    (simp add: digest_empty_def digest_abc_def)

end
